theory Spec2Isabelle
  imports Main "HOL-Library.Sublist" "HOL-Library.AList" "HOL-Library.Multiset"
begin

section \<open>Characters and the string primitives of the scripts\<close>

text \<open>
  The scripts work on Python \<open>str\<close> values. A text is modelled as a \<open>string\<close>, each
  \<open>char\<close> read as the code point of the same number (U+0000 to U+00FF). On that range
  the three classifications below are the ones of Python's \<open>re\<close> and \<open>str\<close>:
  \<open>\w\<close> (alphanumeric or underscore), \<open>str.isspace\<close> (what \<open>str.strip\<close> removes) and
  \<open>str.lower\<close>. Under \<open>re.IGNORECASE\<close> two characters of the range match exactly when
  their lower-case forms are equal.
\<close>

definition code :: "char \<Rightarrow> nat" where
  "code c = of_char c"

definition is_word_char :: "char \<Rightarrow> bool" where
  "is_word_char c =
     (let n = code c in
        (48 \<le> n \<and> n \<le> 57) \<or> (65 \<le> n \<and> n \<le> 90) \<or> n = 95 \<or> (97 \<le> n \<and> n \<le> 122)
      \<or> n = 170 \<or> n = 178 \<or> n = 179 \<or> n = 181 \<or> n = 185 \<or> n = 186
      \<or> (188 \<le> n \<and> n \<le> 190) \<or> (192 \<le> n \<and> n \<le> 214) \<or> (216 \<le> n \<and> n \<le> 246)
      \<or> (248 \<le> n \<and> n \<le> 255))"

definition is_space :: "char \<Rightarrow> bool" where
  "is_space c =
     (let n = code c in
        (9 \<le> n \<and> n \<le> 13) \<or> (28 \<le> n \<and> n \<le> 32) \<or> n = 133 \<or> n = 160)"

definition lower_char :: "char \<Rightarrow> char" where
  "lower_char c =
     (let n = code c in
        if (65 \<le> n \<and> n \<le> 90) \<or> (192 \<le> n \<and> n \<le> 222 \<and> n \<noteq> 215)
        then char_of (n + 32) else c)"

definition lower :: "string \<Rightarrow> string" where
  "lower s = map lower_char s"

text \<open>\<open>s.strip()\<close>: leading and trailing white space removed.\<close>

definition lstrip :: "string \<Rightarrow> string" where
  "lstrip s = dropWhile is_space s"

definition rstrip :: "string \<Rightarrow> string" where
  "rstrip s = rev (dropWhile is_space (rev s))"

definition strip :: "string \<Rightarrow> string" where
  "strip s = rstrip (lstrip s)"

text \<open>\<open>s.startswith(p)\<close>.\<close>

definition startswith :: "string \<Rightarrow> string \<Rightarrow> bool" where
  "startswith s p = (take (length p) s = p)"

text \<open>\<open>s.split(sep)\<close> for a one-character separator: never an empty list.\<close>

fun split_on :: "char \<Rightarrow> string \<Rightarrow> string list" where
  "split_on sep [] = [[]]"
| "split_on sep (c # cs) =
     (if c = sep then [] # split_on sep cs
      else (case split_on sep cs of
              [] \<Rightarrow> [[c]]
            | p # ps \<Rightarrow> (c # p) # ps))"


section \<open>Keyword Scorer (filter_fitness_videos.py)\<close>

subsection \<open>The pattern \<open>\b + re.escape(keyword) + \b\<close> under \<open>re.IGNORECASE\<close>\<close>

text \<open>
  \<open>\b\<close> holds between two neighbouring positions when exactly one of them is a word
  character; the outside of the text counts as a non-word character.
\<close>

definition is_word_opt :: "char option \<Rightarrow> bool" where
  "is_word_opt c = (case c of None \<Rightarrow> False | Some x \<Rightarrow> is_word_char x)"

definition word_boundary :: "char option \<Rightarrow> char option \<Rightarrow> bool" where
  "word_boundary l r = (is_word_opt l \<noteq> is_word_opt r)"

definition head_opt :: "string \<Rightarrow> char option" where
  "head_opt s = (case s of [] \<Rightarrow> None | c # _ \<Rightarrow> Some c)"

definition last_opt :: "char option \<Rightarrow> string \<Rightarrow> char option" where
  "last_opt prev s = (if s = [] then prev else Some (last s))"

text \<open>The escaped keyword is a literal; it matches the head of the text up to case.\<close>

fun ci_prefix :: "string \<Rightarrow> string \<Rightarrow> bool" where
  "ci_prefix [] text = True"
| "ci_prefix (k # ks) [] = False"
| "ci_prefix (k # ks) (c # cs) =
     (if lower_char k = lower_char c then ci_prefix ks cs else False)"

lemma ci_prefix_iff:
  "ci_prefix kw t = (length kw \<le> length t \<and> lower (take (length kw) t) = lower kw)"
  by (induction kw t rule: ci_prefix.induct) (auto simp: lower_def)

text \<open>
  The whole pattern at one position: \<open>prev\<close> is the character before the position
  (\<open>None\<close> at the start of the text), \<open>text\<close> is what follows it.
\<close>

definition kw_match_at :: "string \<Rightarrow> char option \<Rightarrow> string \<Rightarrow> bool" where
  "kw_match_at kw prev text =
     (if word_boundary prev (head_opt text) then
        (if ci_prefix kw text then
           word_boundary (last_opt prev (take (length kw) text))
                         (head_opt (drop (length kw) text))
         else False)
      else False)"

lemma kw_match_at_iff:
  "kw_match_at kw prev t =
     (word_boundary prev (head_opt t) \<and> ci_prefix kw t \<and>
      word_boundary (last_opt prev (take (length kw) t)) (head_opt (drop (length kw) t)))"
  by (simp add: kw_match_at_def)

text \<open>
  The scan of \<open>re.finditer\<close>: leftmost match first, the search resumed where the match
  ended; after an empty match the scan moves one character on. \<open>pos\<close> is the offset of
  \<open>text\<close> in the whole input.
\<close>

function finditer_kw :: "string \<Rightarrow> nat \<Rightarrow> char option \<Rightarrow> string \<Rightarrow> (nat \<times> string) list" where
  "finditer_kw kw pos prev text =
     (if kw_match_at kw prev text then
        (if kw = [] then
           (pos, []) # (case text of [] \<Rightarrow> []
                        | c # cs \<Rightarrow> finditer_kw kw (Suc pos) (Some c) cs)
         else
           (pos, take (length kw) text) #
             finditer_kw kw (pos + length kw)
               (Some (last (take (length kw) text))) (drop (length kw) text))
      else
        (case text of [] \<Rightarrow> []
         | c # cs \<Rightarrow> finditer_kw kw (Suc pos) (Some c) cs))"
  by pat_completeness auto
termination
proof (relation "measure (\<lambda>(kw, pos, prev, text). length text)")
  fix kw :: string and pos :: nat and prev :: "char option" and tx :: string
  assume "kw_match_at kw prev tx" and "kw \<noteq> []"
  then have "0 < length kw" and "length kw \<le> length tx"
    by (simp_all add: kw_match_at_iff ci_prefix_iff)
  then have "length tx - length kw < length tx"
    by arith
  then show "((kw, pos + length kw, Some (last (take (length kw) tx)),
               drop (length kw) tx), (kw, pos, prev, tx))
             \<in> measure (\<lambda>(kw, pos, prev, text). length text)"
    by simp
qed auto

declare finditer_kw.simps [simp del]

text \<open>\<open>re.findall\<close> returns the matched strings of the scan.\<close>

definition findall_kw :: "string \<Rightarrow> string \<Rightarrow> string list" where
  "findall_kw kw text = map snd (finditer_kw kw 0 None text)"

definition count_kw :: "string \<Rightarrow> string \<Rightarrow> nat" where
  "count_kw kw text = length (findall_kw kw text)"


text \<open>
  An occurrence of the pattern at offset \<open>j\<close> of \<open>text\<close>, the character before the
  text being \<open>prev\<close>: the keyword up to case, with \<open>\b\<close> on both sides.
\<close>

definition occurs_at :: "string \<Rightarrow> char option \<Rightarrow> string \<Rightarrow> nat \<Rightarrow> bool" where
  "occurs_at kw prev text j =
     (j + length kw \<le> length text \<and>
      lower (take (length kw) (drop j text)) = lower kw \<and>
      word_boundary (last_opt prev (take j text)) (head_opt (drop j text)) \<and>
      word_boundary (last_opt prev (take (j + length kw) text))
                    (head_opt (drop (j + length kw) text)))"

text \<open>
  A whole-word occurrence: the keyword up to case, with no word character next to it on
  either side.
\<close>

definition whole_word_at :: "string \<Rightarrow> string \<Rightarrow> nat \<Rightarrow> bool" where
  "whole_word_at kw text i =
     (i + length kw \<le> length text \<and>
      lower (take (length kw) (drop i text)) = lower kw \<and>
      (i = 0 \<or> \<not> is_word_char (text ! (i - 1))) \<and>
      (i + length kw = length text \<or> \<not> is_word_char (text ! (i + length kw))))"

subsection \<open>The same pattern over any alphabet\<close>

text \<open>
  A Python string is a sequence of Unicode code points, and the regular-expression engine
  reads two tables of them: the class \<open>\w\<close>, and for \<open>re.IGNORECASE\<close> the characters
  that an escaped literal character matches. Here both tables are parameters and the
  characters are of any type: \<open>isw c\<close> says that \<open>c\<close> is in \<open>\w\<close>, and \<open>ci p c\<close> that the
  character \<open>p\<close> of the pattern matches the character \<open>c\<close> of the text. The definitions
  above are the case of the code points below 256.
\<close>

definition re_is_word_opt :: "('c \<Rightarrow> bool) \<Rightarrow> 'c option \<Rightarrow> bool" where
  "re_is_word_opt isw c = (case c of None \<Rightarrow> False | Some x \<Rightarrow> isw x)"

definition re_word_boundary :: "('c \<Rightarrow> bool) \<Rightarrow> 'c option \<Rightarrow> 'c option \<Rightarrow> bool" where
  "re_word_boundary isw l r = (re_is_word_opt isw l \<noteq> re_is_word_opt isw r)"

definition re_head_opt :: "'c list \<Rightarrow> 'c option" where
  "re_head_opt s = (case s of [] \<Rightarrow> None | c # _ \<Rightarrow> Some c)"

definition re_last_opt :: "'c option \<Rightarrow> 'c list \<Rightarrow> 'c option" where
  "re_last_opt prev s = (if s = [] then prev else Some (last s))"

fun re_literal :: "('c \<Rightarrow> 'c \<Rightarrow> bool) \<Rightarrow> 'c list \<Rightarrow> 'c list \<Rightarrow> bool" where
  "re_literal ci [] text = True"
| "re_literal ci (k # ks) [] = False"
| "re_literal ci (k # ks) (c # cs) = (if ci k c then re_literal ci ks cs else False)"

lemma re_literal_iff:
  "re_literal ci kw t = (length kw \<le> length t \<and> list_all2 ci kw (take (length kw) t))"
  by (induction ci kw t rule: re_literal.induct) auto

definition re_match_at ::
  "('c \<Rightarrow> bool) \<Rightarrow> ('c \<Rightarrow> 'c \<Rightarrow> bool) \<Rightarrow> 'c list \<Rightarrow> 'c option \<Rightarrow> 'c list \<Rightarrow> bool" where
  "re_match_at isw ci kw prev text =
     (if re_word_boundary isw prev (re_head_opt text) then
        (if re_literal ci kw text then
           re_word_boundary isw (re_last_opt prev (take (length kw) text))
                                (re_head_opt (drop (length kw) text))
         else False)
      else False)"

lemma re_match_at_iff:
  "re_match_at isw ci kw prev t =
     (re_word_boundary isw prev (re_head_opt t) \<and> re_literal ci kw t \<and>
      re_word_boundary isw (re_last_opt prev (take (length kw) t))
                           (re_head_opt (drop (length kw) t)))"
  by (simp add: re_match_at_def)

function re_finditer ::
  "('c \<Rightarrow> bool) \<Rightarrow> ('c \<Rightarrow> 'c \<Rightarrow> bool) \<Rightarrow> 'c list \<Rightarrow> nat \<Rightarrow> 'c option \<Rightarrow> 'c list \<Rightarrow>
   (nat \<times> 'c list) list" where
  "re_finditer isw ci kw pos prev text =
     (if re_match_at isw ci kw prev text then
        (if kw = [] then
           (pos, []) # (case text of [] \<Rightarrow> []
                        | c # cs \<Rightarrow> re_finditer isw ci kw (Suc pos) (Some c) cs)
         else
           (pos, take (length kw) text) #
             re_finditer isw ci kw (pos + length kw)
               (Some (last (take (length kw) text))) (drop (length kw) text))
      else
        (case text of [] \<Rightarrow> []
         | c # cs \<Rightarrow> re_finditer isw ci kw (Suc pos) (Some c) cs))"
  by pat_completeness auto
termination
proof (relation "measure (\<lambda>(isw, ci, kw, pos, prev, text). length text)")
  fix isw :: "'c \<Rightarrow> bool" and ci :: "'c \<Rightarrow> 'c \<Rightarrow> bool" and kw :: "'c list"
    and pos :: nat and prev :: "'c option" and tx :: "'c list"
  assume "re_match_at isw ci kw prev tx" and "kw \<noteq> []"
  then have "0 < length kw" and "length kw \<le> length tx"
    by (simp_all add: re_match_at_iff re_literal_iff)
  then have "length tx - length kw < length tx"
    by arith
  then show "((isw, ci, kw, pos + length kw, Some (last (take (length kw) tx)),
               drop (length kw) tx), (isw, ci, kw, pos, prev, tx))
             \<in> measure (\<lambda>(isw, ci, kw, pos, prev, text). length text)"
    by simp
qed auto

declare re_finditer.simps [simp del]

definition re_findall :: "('c \<Rightarrow> bool) \<Rightarrow> ('c \<Rightarrow> 'c \<Rightarrow> bool) \<Rightarrow> 'c list \<Rightarrow> 'c list \<Rightarrow> 'c list list" where
  "re_findall isw ci kw text = map snd (re_finditer isw ci kw 0 None text)"

definition re_count :: "('c \<Rightarrow> bool) \<Rightarrow> ('c \<Rightarrow> 'c \<Rightarrow> bool) \<Rightarrow> 'c list \<Rightarrow> 'c list \<Rightarrow> nat" where
  "re_count isw ci kw text = length (re_findall isw ci kw text)"

text \<open>An occurrence of the pattern at offset \<open>j\<close>, and a whole-word occurrence.\<close>

definition re_occurs_at ::
  "('c \<Rightarrow> bool) \<Rightarrow> ('c \<Rightarrow> 'c \<Rightarrow> bool) \<Rightarrow> 'c list \<Rightarrow> 'c option \<Rightarrow> 'c list \<Rightarrow> nat \<Rightarrow> bool" where
  "re_occurs_at isw ci kw prev text j =
     (j + length kw \<le> length text \<and>
      list_all2 ci kw (take (length kw) (drop j text)) \<and>
      re_word_boundary isw (re_last_opt prev (take j text)) (re_head_opt (drop j text)) \<and>
      re_word_boundary isw (re_last_opt prev (take (j + length kw) text))
                           (re_head_opt (drop (j + length kw) text)))"

definition re_whole_word_at ::
  "('c \<Rightarrow> bool) \<Rightarrow> ('c \<Rightarrow> 'c \<Rightarrow> bool) \<Rightarrow> 'c list \<Rightarrow> 'c list \<Rightarrow> nat \<Rightarrow> bool" where
  "re_whole_word_at isw ci kw text i =
     (i + length kw \<le> length text \<and>
      list_all2 ci kw (take (length kw) (drop i text)) \<and>
      (i = 0 \<or> \<not> isw (text ! (i - 1))) \<and>
      (i + length kw = length text \<or> \<not> isw (text ! (i + length kw))))"

text \<open>The table of \<open>re.IGNORECASE\<close> on the code points below 256.\<close>

definition ci_latin1 :: "char \<Rightarrow> char \<Rightarrow> bool" where
  "ci_latin1 p c = (lower_char p = lower_char c)"

text \<open>
  A keyword overlaps itself when a proper suffix of it that follows a non-word character
  is, up to case, a prefix of it: only then can two whole-word occurrences share
  characters of the text.
\<close>

definition self_overlapping :: "string \<Rightarrow> bool" where
  "self_overlapping kw =
     (\<exists>d \<in> set [1..<length kw].
        \<not> is_word_char (kw ! (d - 1)) \<and>
        lower (drop d kw) = lower (take (length kw - d) kw))"

subsection \<open>The vocabulary\<close>

text \<open>
  \<open>FITNESS_KEYWORDS\<close> is a Python set literal. Its elements are listed here in the
  order of the source; the order in which the set is iterated is not fixed by the
  language (string hashes are salted per process), so every function that iterates the
  set takes the iteration order as an argument.
\<close>

definition FITNESS_KEYWORDS :: "string list" where
  "FITNESS_KEYWORDS =
    [''workout'', ''exercise'', ''training'', ''fitness'', ''gym'',
     ''muscle'', ''chest'', ''back'', ''legs'', ''arms'', ''shoulders'',
     ''biceps'', ''triceps'', ''abs'', ''core'', ''glutes'', ''hamstrings'',
     ''quadriceps'', ''calves'', ''lats'', ''delts'', ''pecs'',
     ''squat'', ''deadlift'', ''bench press'', ''push up'', ''pull up'',
     ''curl'', ''press'', ''row'', ''lunge'', ''plank'', ''crunch'',
     ''burpee'', ''jump'', ''sprint'', ''cardio'', ''hiit'',
     ''dumbbell'', ''barbell'', ''kettlebell'', ''weight'', ''resistance'',
     ''cable'', ''machine'', ''bodyweight'', ''calisthenics'',
     ''reps'', ''sets'', ''repetitions'', ''strength'', ''hypertrophy'',
     ''endurance'', ''conditioning'', ''mobility'', ''flexibility'',
     ''stretching'', ''recovery'', ''rest day'', ''progressive overload'',
     ''muscle gain'', ''fat loss'', ''cutting'', ''bulking'', ''lean'',
     ''body composition'', ''physique'', ''shredded'', ''jacked'',
     ''powerlifting'', ''bodybuilding'', ''crossfit'', ''olympic lifting'',
     ''martial arts'', ''boxing'', ''mma'', ''wrestling'', ''jiu jitsu'',
     ''yoga'', ''pilates'', ''running'', ''cycling'', ''swimming'',
     ''nutrition'', ''protein'', ''calories'', ''diet'', ''supplements'',
     ''performance'', ''athletic'', ''athlete'', ''sports'']"

subsection \<open>More string primitives\<close>

text \<open>\<open>s.find(sub)\<close>: the offset of the first occurrence, \<open>None\<close> for Python's \<open>-1\<close>.\<close>

fun find_from :: "nat \<Rightarrow> string \<Rightarrow> string \<Rightarrow> nat option" where
  "find_from i sub [] = (if sub = [] then Some i else None)"
| "find_from i sub (c # cs) =
     (if startswith (c # cs) sub then Some i else find_from (Suc i) sub cs)"

definition find_sub :: "string \<Rightarrow> string \<Rightarrow> nat option" where
  "find_sub s sub = find_from 0 sub s"

text \<open>
  \<open>s.replace(old, new)\<close> for a non-empty \<open>old\<close>: occurrences are replaced from left to
  right, without overlap. The counter says how many characters of a replaced occurrence
  remain to be skipped.
\<close>

fun replace_from :: "nat \<Rightarrow> string \<Rightarrow> string \<Rightarrow> string \<Rightarrow> string" where
  "replace_from skip old new [] = []"
| "replace_from skip old new (c # cs) =
     (if 0 < skip then replace_from (skip - 1) old new cs
      else if old \<noteq> [] \<and> startswith (c # cs) old
        then new @ replace_from (length old - 1) old new cs
      else c # replace_from 0 old new cs)"

definition replace :: "string \<Rightarrow> string \<Rightarrow> string \<Rightarrow> string" where
  "replace s old new = replace_from 0 old new s"

subsection \<open>\<open>load_transcript\<close>\<close>

record transcript =
  t_video_id :: string
  t_url :: string
  t_text :: string
  t_filename :: string

text \<open>The loop over the first ten lines: the state is the pair \<open>(video_id, url)\<close>.\<close>

definition header_step :: "string \<Rightarrow> string \<times> string \<Rightarrow> string \<times> string" where
  "header_step line st =
     (if startswith line ''Video ID:'' then (strip (replace line ''Video ID:'' []), snd st)
      else if startswith line ''URL:'' then (fst st, strip (replace line ''URL:'' []))
      else st)"

definition separator :: string where
  "separator = replicate 80 (CHR ''='')"

text \<open>
  A file of the directory: its name and what reading it as UTF-8 text gives, \<open>None\<close>
  when \<open>open\<close> or \<open>read\<close> raises. \<open>load_transcript\<close> catches every such exception and
  returns \<open>None\<close>.
\<close>

type_synonym txt_file = "string \<times> string option"

definition load_transcript :: "txt_file \<Rightarrow> transcript option" where
  "load_transcript f =
     (case snd f of
        None \<Rightarrow> None
      | Some content \<Rightarrow>
          (let lines = split_on (CHR 0x0A) content;
               st = fold header_step (take 10 lines) ([], []);
               transcript_text =
                 (case find_sub content separator of
                    Some idx \<Rightarrow> lower (drop idx content)
                  | None \<Rightarrow> lower content)
           in Some \<lparr> t_video_id = fst st, t_url = snd st,
                     t_text = transcript_text, t_filename = fst f \<rparr>))"

subsection \<open>\<open>calculate_fitness_score\<close>\<close>

text \<open>
  The dictionary \<open>matches\<close> is an association list in insertion order; \<open>AList.update\<close>
  is the assignment \<open>matches[keyword] = count\<close>. \<open>kws\<close> is the order in which the set
  \<open>FITNESS_KEYWORDS\<close> is iterated.
\<close>

definition score_step ::
  "string \<Rightarrow> string \<Rightarrow> nat \<times> (string \<times> nat) list \<Rightarrow> nat \<times> (string \<times> nat) list" where
  "score_step text keyword st =
     (let count = count_kw keyword text in
      if 0 < count then (fst st + count, AList.update keyword count (snd st)) else st)"

definition calculate_fitness_score :: "string list \<Rightarrow> string \<Rightarrow> nat \<times> (string \<times> nat) list" where
  "calculate_fitness_score kws text = fold (score_step text) kws (0, [])"

subsection \<open>\<open>find_fitness_videos\<close>\<close>

text \<open>
  \<open>sorted(xs, key=k, reverse=True)\<close> and \<open>xs.sort(key=k, reverse=True)\<close>: the list is
  reversed, sorted stably in ascending order and reversed again, so that elements with
  equal keys keep their order.
\<close>

definition sorted_reverse :: "('a \<Rightarrow> nat) \<Rightarrow> 'a list \<Rightarrow> 'a list" where
  "sorted_reverse k xs = rev (sort_key k (rev xs))"

record fitness_entry =
  video_id :: string
  url :: string
  filename :: string
  fitness_score :: nat
  top_keywords :: "(string \<times> nat) list"

text \<open>The body of the loop over the transcript files: the entries appended so far.\<close>

definition scan_file ::
  "string list \<Rightarrow> int \<Rightarrow> txt_file \<Rightarrow> fitness_entry list \<Rightarrow> fitness_entry list" where
  "scan_file kws min_score f fitness_videos =
     (case load_transcript f of
        None \<Rightarrow> fitness_videos
      | Some tr \<Rightarrow>
          (let (score, matches) = calculate_fitness_score kws (t_text tr) in
           if min_score \<le> int score then
             fitness_videos @
               [\<lparr> video_id = t_video_id tr, url = t_url tr, filename = t_filename tr,
                  fitness_score = score,
                  top_keywords = take 10 (sorted_reverse snd matches) \<rparr>]
           else fitness_videos))"

text \<open>
  The directory is \<open>None\<close> when the path does not exist, otherwise the files that
  \<open>glob('*.txt')\<close> lists, in the order of the listing.
\<close>

definition find_fitness_videos ::
  "string list \<Rightarrow> txt_file list option \<Rightarrow> int \<Rightarrow> fitness_entry list" where
  "find_fitness_videos kws transcripts_dir min_score =
     (case transcripts_dir of
        None \<Rightarrow> []
      | Some transcript_files \<Rightarrow>
          if transcript_files = [] then []
          else sorted_reverse fitness_score
                 (fold (scan_file kws min_score) transcript_files []))"

text \<open>
  The score of a file, when it can be read, and whether the file qualifies at a
  threshold.
\<close>

definition file_score :: "string list \<Rightarrow> txt_file \<Rightarrow> nat option" where
  "file_score kws f =
     map_option (\<lambda>tr. fst (calculate_fitness_score kws (t_text tr))) (load_transcript f)"

definition qualifies :: "string list \<Rightarrow> int \<Rightarrow> txt_file \<Rightarrow> bool" where
  "qualifies kws min_score f =
     (case file_score kws f of None \<Rightarrow> False | Some s \<Rightarrow> min_score \<le> int s)"

text \<open>An entry without the names of its top keywords: only their counts are kept.\<close>

definition entry_core :: "fitness_entry \<Rightarrow> string \<times> string \<times> string \<times> nat \<times> nat list" where
  "entry_core e = (video_id e, url e, filename e, fitness_score e, map snd (top_keywords e))"

text \<open>The loop over the files as a filter and a map.\<close>

definition entry_of :: "string list \<Rightarrow> transcript \<Rightarrow> fitness_entry" where
  "entry_of kws tr =
     \<lparr> video_id = t_video_id tr, url = t_url tr, filename = t_filename tr,
       fitness_score = fst (calculate_fitness_score kws (t_text tr)),
       top_keywords = take 10 (sorted_reverse snd (snd (calculate_fitness_score kws (t_text tr)))) \<rparr>"

definition scan_result :: "string list \<Rightarrow> int \<Rightarrow> txt_file \<Rightarrow> fitness_entry option" where
  "scan_result kws m f =
     (case load_transcript f of
        None \<Rightarrow> None
      | Some tr \<Rightarrow> if m \<le> int (fst (calculate_fitness_score kws (t_text tr)))
                  then Some (entry_of kws tr) else None)"

text \<open>A transcript that contains \<open>squat\<close> three times and \<open>deadlift\<close> twice.\<close>

definition example_text :: string where
  "example_text = ''squat squat squat deadlift deadlift''"

definition example_transcript :: txt_file where
  "example_transcript = (''example.txt'', Some example_text)"

text \<open>A transcript in which two keywords occur once each.\<close>

definition tie_text :: string where
  "tie_text = ''squat deadlift''"

definition tie_transcript :: txt_file where
  "tie_transcript = (''tie.txt'', Some tie_text)"

text \<open>A transcript record with the text of the tie example.\<close>

definition tie_record :: transcript where
  "tie_record = \<lparr> t_video_id = ''unknown'', t_url = [], t_text = tie_text, t_filename = ''tie.txt'' \<rparr>"

section \<open>Exceptions and the results of the Enumerator and the Fetcher\<close>

text \<open>
  The exceptions that the modelled code can meet. All of them derive from \<open>Exception\<close>
  except \<open>KeyboardInterrupt\<close>, which derives from \<open>BaseException\<close> only and so passes
  an \<open>except Exception\<close> clause.
\<close>

datatype py_exn =
    TimeoutExpired | OSError | UnicodeDecodeError | JSONDecodeError
  | TypeError | KeyError | ValueError | ZeroDivisionError | KeyboardInterrupt

definition is_Exception :: "py_exn \<Rightarrow> bool" where
  "is_Exception e = (e \<noteq> KeyboardInterrupt)"

datatype 'a outcome = Returns 'a | Raises py_exn

text \<open>
  The \<open>error\<close> field of a failure: a string literal of the code, a text captured from the
  external process, or \<open>str(e)\<close> for a caught exception \<open>e\<close>.
\<close>

datatype reason = Msg string | StrOf py_exn

text \<open>
  What \<open>subprocess.run\<close> does: the process ends with a return code, its standard output
  and its diagnostic output, or the call raises (\<open>TimeoutExpired\<close> when the bounded wait
  elapses).
\<close>

datatype proc = Completed int string string | ProcRaised py_exn

section \<open>External Enumerator (extract_channel_videos.py)\<close>

record video =
  v_video_id :: string
  v_title :: string
  v_url :: string

datatype enum_result = Videos "video list" | Failed reason

text \<open>\<open>line.split('|', 1)\<close> when the separator occurs: the parts around its first occurrence.\<close>

fun split_first :: "char \<Rightarrow> string \<Rightarrow> (string \<times> string) option" where
  "split_first sep [] = None"
| "split_first sep (c # cs) =
     (if c = sep then Some ([], cs)
      else (case split_first sep cs of
              None \<Rightarrow> None
            | Some (a, b) \<Rightarrow> Some (c # a, b)))"

definition watch_url :: "string \<Rightarrow> string" where
  "watch_url vid = ''https://www.youtube.com/watch?v='' @ vid"

text \<open>The body of the loop over the lines: a line without \<open>|\<close> adds nothing.\<close>

definition parse_line :: "string \<Rightarrow> video list \<Rightarrow> video list" where
  "parse_line line videos =
     (if CHR ''|'' \<in> set line then
        (case split_first (CHR ''|'') line of
           None \<Rightarrow> videos
         | Some (vid, title) \<Rightarrow>
             videos @ [\<lparr> v_video_id = strip vid, v_title = strip title,
                         v_url = watch_url (strip vid) \<rparr>])
      else videos)"

definition parse_stdout :: "string \<Rightarrow> video list" where
  "parse_stdout out = fold parse_line (split_on (CHR 0x0A) (strip out)) []"

text \<open>The \<open>try\<close> block of \<open>fetch_channel_videos\<close>, then the function with its handlers.\<close>

definition fetch_channel_videos_try :: "proc \<Rightarrow> enum_result outcome" where
  "fetch_channel_videos_try p =
     (case p of
        ProcRaised e \<Rightarrow> Raises e
      | Completed returncode out err \<Rightarrow>
          if returncode \<noteq> 0 then Returns (Failed (Msg err))
          else Returns (Videos (parse_stdout out)))"

definition fetch_channel_videos :: "proc \<Rightarrow> enum_result outcome" where
  "fetch_channel_videos p =
     (case fetch_channel_videos_try p of
        Returns r \<Rightarrow> Returns r
      | Raises e \<Rightarrow>
          if e = TimeoutExpired then Returns (Failed (Msg ''Timeout''))
          else if is_Exception e then Returns (Failed (StrOf e))
          else Raises e)"

text \<open>
  The record of a line that holds a \<open>|\<close>, said with the first occurrence of the
  separator: the identifier is what precedes it, the title is what follows it.
\<close>

definition line_record :: "string \<Rightarrow> video" where
  "line_record line =
     (let vid = strip (takeWhile (\<lambda>c. c \<noteq> CHR ''|'') line);
          title = strip (drop 1 (dropWhile (\<lambda>c. c \<noteq> CHR ''|'') line))
      in \<lparr> v_video_id = vid, v_title = title, v_url = watch_url vid \<rparr>)"

definition example_stdout :: string where
  "example_stdout = ''abc123|My Title'' @ [CHR 0x0A] @ ''def456|Other'' @ [CHR 0x0A]"

section \<open>URL Extractor (extract_youtube_urls.py, extract_channel_urls)\<close>

subsection \<open>The three URL patterns\<close>

text \<open>
  A pattern is a function from the text at a position to the length of its match there.
  \<open>lit\<close> is a literal followed by the rest of the pattern, \<open>opt_lit\<close> an optional literal
  (\<open>s?\<close>, \<open>(?:www\.)?\<close>: first with the literal, then without it), \<open>class_plus\<close> a
  greedy run of at least one character of a class that ends the pattern.
\<close>

type_synonym pattern = "string \<Rightarrow> nat option"

definition lit :: "string \<Rightarrow> pattern \<Rightarrow> pattern" where
  "lit l k s =
     (if startswith s l then map_option (\<lambda>n. length l + n) (k (drop (length l) s))
      else None)"

definition opt_lit :: "string \<Rightarrow> pattern \<Rightarrow> pattern" where
  "opt_lit l k s = (case lit l k s of Some n \<Rightarrow> Some n | None \<Rightarrow> k s)"

definition class_plus :: "(char \<Rightarrow> bool) \<Rightarrow> pattern" where
  "class_plus cls s =
     (let n = length (takeWhile cls s) in if 0 < n then Some n else None)"

text \<open>\<open>[\w-]\<close> and \<open>[\w\-\.]\<close>.\<close>

definition is_id_char :: "char \<Rightarrow> bool" where
  "is_id_char c = (is_word_char c \<or> c = CHR ''-'')"

definition is_handle_char :: "char \<Rightarrow> bool" where
  "is_handle_char c = (is_word_char c \<or> c = CHR ''-'' \<or> c = CHR ''.'')"

text \<open>\<open>https?://(?:www\.)?youtube\.com/watch\?v=[\w-]+\<close>\<close>

definition watch_pattern :: pattern where
  "watch_pattern =
     lit ''http'' (opt_lit ''s'' (lit ''://'' (opt_lit ''www.''
       (lit ''youtube.com/watch?v='' (class_plus is_id_char)))))"

text \<open>\<open>https?://(?:www\.)?youtube\.com/shorts/[\w-]+\<close>\<close>

definition shorts_pattern :: pattern where
  "shorts_pattern =
     lit ''http'' (opt_lit ''s'' (lit ''://'' (opt_lit ''www.''
       (lit ''youtube.com/shorts/'' (class_plus is_id_char)))))"

text \<open>\<open>https://www\.youtube\.com/@[\w\-\.]+\<close>\<close>

definition channel_pattern :: pattern where
  "channel_pattern = lit ''https://www.youtube.com/@'' (class_plus is_handle_char)"

text \<open>
  The scan of \<open>re.finditer\<close> for such a pattern: offsets and matched strings, leftmost
  first, the search resumed where a match ended. (None of the three patterns matches the
  empty string.)
\<close>

function finditer_pat :: "pattern \<Rightarrow> nat \<Rightarrow> string \<Rightarrow> (nat \<times> string) list" where
  "finditer_pat p pos [] = []"
| "finditer_pat p pos (c # cs) =
     (case p (c # cs) of
        None \<Rightarrow> finditer_pat p (Suc pos) cs
      | Some n \<Rightarrow>
          if 0 < n then (pos, take n (c # cs)) # finditer_pat p (pos + n) (drop n (c # cs))
          else finditer_pat p (Suc pos) cs)"
  by pat_completeness auto
termination
  by (relation "measure (\<lambda>(p, pos, s). length s)") auto

definition findall_pat :: "pattern \<Rightarrow> string \<Rightarrow> string list" where
  "findall_pat p content = map snd (finditer_pat p 0 content)"

subsection \<open>Removing duplicates\<close>

text \<open>
  The loop \<open>for url in urls: clean = ...; if clean not in seen: ...\<close>; the state is the
  set \<open>seen\<close> and the list of unique URLs.
\<close>

definition dedup_step :: "(string \<Rightarrow> string) \<Rightarrow> string \<Rightarrow> string set \<times> string list \<Rightarrow> string set \<times> string list" where
  "dedup_step clean u st =
     (let c = clean u in
      if c \<notin> fst st then (insert c (fst st), snd st @ [c]) else st)"

definition dedup :: "(string \<Rightarrow> string) \<Rightarrow> string list \<Rightarrow> string list" where
  "dedup clean urls = snd (fold (dedup_step clean) urls ({}, []))"

text \<open>\<open>url.split('&')[0] if '&' in url else url\<close>\<close>

definition clean_url :: "string \<Rightarrow> string" where
  "clean_url u = (if CHR ''&'' \<in> set u then hd (split_on (CHR ''&'') u) else u)"

text \<open>\<open>channel.rstrip('/')\<close>\<close>

definition rstrip_slash :: "string \<Rightarrow> string" where
  "rstrip_slash u = rev (dropWhile (\<lambda>c. c = CHR ''/'') (rev u))"

text \<open>
  \<open>extract_youtube_videos\<close> returns the unique URLs (and writes them to the output file,
  one per line); \<open>extract_channel_urls\<close> returns the unique channel URLs.
\<close>

definition video_urls :: "string \<Rightarrow> string list" where
  "video_urls content = findall_pat watch_pattern content @ findall_pat shorts_pattern content"

definition extract_youtube_videos :: "string \<Rightarrow> string list" where
  "extract_youtube_videos content = dedup clean_url (video_urls content)"

definition output_file_content :: "string list \<Rightarrow> string" where
  "output_file_content urls = concat (map (\<lambda>u. u @ [CHR 0x0A]) urls)"

definition extract_channel_urls :: "string \<Rightarrow> string list" where
  "extract_channel_urls content = dedup rstrip_slash (findall_pat channel_pattern content)"

subsection \<open>What the claim about the order says\<close>

text \<open>The elements of a list, each once, in the order of their first occurrence.\<close>

fun first_occurrences :: "'a list \<Rightarrow> 'a list" where
  "first_occurrences [] = []"
| "first_occurrences (x # xs) = x # first_occurrences (filter (\<lambda>y. y \<noteq> x) xs)"

text \<open>
  The occurrences of video URLs in the input, normalised, with their offsets; the offset
  of the first occurrence of a URL; a list of URLs in the order of first occurrence in
  the input.
\<close>

definition video_occurrences :: "string \<Rightarrow> (nat \<times> string) list" where
  "video_occurrences content =
     map (\<lambda>(i, u). (i, clean_url u))
       (finditer_pat watch_pattern 0 content @ finditer_pat shorts_pattern 0 content)"

definition channel_occurrences :: "string \<Rightarrow> (nat \<times> string) list" where
  "channel_occurrences content =
     map (\<lambda>(i, u). (i, rstrip_slash u)) (finditer_pat channel_pattern 0 content)"

definition first_offset :: "(nat \<times> string) list \<Rightarrow> string \<Rightarrow> nat" where
  "first_offset occs u = min_list (map fst (filter (\<lambda>p. snd p = u) occs))"

definition in_input_order :: "(nat \<times> string) list \<Rightarrow> string list \<Rightarrow> bool" where
  "in_input_order occs urls = sorted_wrt (\<lambda>a b. first_offset occs a < first_offset occs b) urls"

definition mixed_bookmarks :: string where
  "mixed_bookmarks = ''https://youtube.com/shorts/abc https://youtube.com/watch?v=xyz''"

section \<open>External Transcript Fetcher (fetch_transcripts_ytdlp.py)\<close>

subsection \<open>Sequencing of steps that may raise\<close>



subsection \<open>What \<open>json.load\<close> returns\<close>







subsection \<open>The text of a subtitle body\<close>




subsection \<open>The files that the subtitle tool leaves\<close>











subsection \<open>What the claims about the Fetcher say\<close>
















section \<open>Properties of the keyword pattern\<close>

lemma is_word_lower_char: "is_word_char (lower_char c) = is_word_char c"
  by (auto simp: is_word_char_def lower_char_def code_def Let_def)


lemma kw_match_at_occurs: "kw_match_at kw prev text = occurs_at kw prev text 0"
  by (auto simp: kw_match_at_iff occurs_at_def ci_prefix_iff last_opt_def)

lemma last_opt_append: "last_opt prev (u @ v) = last_opt (last_opt prev u) v"
  by (simp add: last_opt_def)

lemma occurs_at_shift:
  "occurs_at kw (last_opt prev u) text j \<Longrightarrow> occurs_at kw prev (u @ text) (length u + j)"
  by (simp add: occurs_at_def last_opt_append)

lemma finditer_kw_sound:
  "(i, m) \<in> set (finditer_kw kw pos prev t) \<Longrightarrow>
     pos \<le> i \<and> occurs_at kw prev t (i - pos) \<and> m = take (length kw) (drop (i - pos) t)"
proof (induction kw pos prev t rule: finditer_kw.induct)
  case (1 kw pos prev t)
  note mem = "1.prems"[unfolded finditer_kw.simps[of kw pos prev t]]
  show ?case
  proof (cases "kw_match_at kw prev t")
    case True
    note m = True
    show ?thesis
    proof (cases "kw = []")
      case True
      show ?thesis
      proof (cases t)
        case Nil
        with mem m True show ?thesis
          by (simp add: kw_match_at_occurs)
      next
        case (Cons c cs)
        from mem m True Cons
        consider "i = pos" "m = []" | "(i, m) \<in> set (finditer_kw kw (Suc pos) (Some c) cs)"
          by auto
        then show ?thesis
        proof cases
          case 1
          with m True show ?thesis by (simp add: kw_match_at_occurs)
        next
          case 2
          from "1.IH"(1)[OF m True Cons 2]
          have a: "Suc pos \<le> i" "occurs_at kw (Some c) cs (i - Suc pos)"
               "m = take (length kw) (drop (i - Suc pos) cs)" by simp_all
          have "occurs_at kw prev ([c] @ cs) (length [c] + (i - Suc pos))"
            by (rule occurs_at_shift) (simp add: last_opt_def a)
          moreover have "length [c] + (i - Suc pos) = i - pos" using a(1) by simp
          ultimately show ?thesis using a Cons True by simp
        qed
      qed
    next
      case False
      let ?n = "length kw"
      from m have len: "?n \<le> length t" by (simp add: kw_match_at_iff ci_prefix_iff)
      from mem m False
      consider "i = pos" "m = take ?n t"
        | "(i, m) \<in> set (finditer_kw kw (pos + ?n) (Some (last (take ?n t))) (drop ?n t))"
        by auto
      then show ?thesis
      proof cases
        case 1
        with m show ?thesis by (simp add: kw_match_at_occurs)
      next
        case 2
        from "1.IH"(2)[OF m False 2]
        have a: "pos + ?n \<le> i"
          "occurs_at kw (Some (last (take ?n t))) (drop ?n t) (i - (pos + ?n))"
          "m = take ?n (drop (i - (pos + ?n)) (drop ?n t))" by simp_all
        have ne: "take ?n t \<noteq> []" using False len by auto
        have lo: "last_opt prev (take ?n t) = Some (last (take ?n t))"
          using ne by (simp add: last_opt_def)
        have "occurs_at kw prev (take ?n t @ drop ?n t) (length (take ?n t) + (i - (pos + ?n)))"
          by (rule occurs_at_shift) (simp only: lo a(2))
        moreover have "length (take ?n t) + (i - (pos + ?n)) = i - pos"
          using a(1) len by simp
        moreover have "drop (i - (pos + ?n)) (drop ?n t) = drop (i - pos) t"
          using a(1) by (simp add: add.commute)
        ultimately show ?thesis using a by simp
      qed
    qed
  next
    case False
    show ?thesis
    proof (cases t)
      case Nil
      with mem False show ?thesis by simp
    next
      case (Cons c cs)
      with mem False have 2: "(i, m) \<in> set (finditer_kw kw (Suc pos) (Some c) cs)"
        by simp
      from "1.IH"(3)[OF False Cons 2]
      have a: "Suc pos \<le> i" "occurs_at kw (Some c) cs (i - Suc pos)"
           "m = take (length kw) (drop (i - Suc pos) cs)" by simp_all
      have "occurs_at kw prev ([c] @ cs) (length [c] + (i - Suc pos))"
        by (rule occurs_at_shift) (simp add: last_opt_def a)
      moreover have "length [c] + (i - Suc pos) = i - pos" using a(1) by simp
      moreover have "drop (i - Suc pos) cs = drop (i - pos) (c # cs)"
        using a(1) by (simp add: Suc_diff_Suc drop_Cons')
      ultimately show ?thesis using a Cons by simp
    qed
  qed
qed

lemma lower_length: "lower u = lower v \<Longrightarrow> length u = length v"
  unfolding lower_def by (rule map_eq_imp_length_eq)

lemma lower_take: "lower (take n u) = take n (lower u)"
  by (simp add: lower_def take_map)

lemma lower_drop: "lower (drop n u) = drop n (lower u)"
  by (simp add: lower_def drop_map)

lemma lower_char_eq_word: "lower_char a = lower_char b \<Longrightarrow> is_word_char a = is_word_char b"
  by (metis is_word_lower_char)

lemma head_opt_word_lower:
  "lower u = lower v \<Longrightarrow> is_word_opt (head_opt u) = is_word_opt (head_opt v)"
  by (cases u; cases v) (auto simp: lower_def head_opt_def is_word_opt_def dest: lower_char_eq_word)

lemma last_opt_word_lower:
  assumes "lower u = lower v" and "is_word_opt p = is_word_opt q"
  shows "is_word_opt (last_opt p u) = is_word_opt (last_opt q v)"
proof (cases "u = []")
  case True
  with assms show ?thesis by (simp add: last_opt_def lower_def)
next
  case False
  with assms(1) have v: "v \<noteq> []" by (auto simp: lower_def)
  from assms(1) have "last (lower u) = last (lower v)" by simp
  with False v have "lower_char (last u) = lower_char (last v)"
    by (simp add: lower_def last_map)
  then have "is_word_char (last u) = is_word_char (last v)" by (rule lower_char_eq_word)
  with False v show ?thesis by (simp add: last_opt_def is_word_opt_def)
qed

lemma kw_match_at_case:
  assumes "lower k1 = lower k2" "lower t1 = lower t2" "is_word_opt p1 = is_word_opt p2"
  shows "kw_match_at k1 p1 t1 = kw_match_at k2 p2 t2"
proof -
  have lk: "length k1 = length k2" and lt: "length t1 = length t2"
    using assms by (auto dest: lower_length)
  have a: "is_word_opt (head_opt t1) = is_word_opt (head_opt t2)"
    using assms(2) by (rule head_opt_word_lower)
  have b: "lower (take (length k1) t1) = lower (take (length k2) t2)"
    using assms(2) lk by (simp add: lower_take)
  have c: "is_word_opt (last_opt p1 (take (length k1) t1)) = is_word_opt (last_opt p2 (take (length k2) t2))"
    using b assms(3) by (rule last_opt_word_lower)
  have d: "is_word_opt (head_opt (drop (length k1) t1)) = is_word_opt (head_opt (drop (length k2) t2))"
    using assms(2) lk by (intro head_opt_word_lower) (simp add: lower_drop)
  show ?thesis
    unfolding kw_match_at_iff ci_prefix_iff word_boundary_def
    using a b c d lk lt assms by simp
qed

lemma finditer_kw_case:
  "lower k1 = lower k2 \<Longrightarrow> lower t1 = lower t2 \<Longrightarrow> is_word_opt p1 = is_word_opt p2 \<Longrightarrow>
   map fst (finditer_kw k1 pos p1 t1) = map fst (finditer_kw k2 pos p2 t2)"
proof (induction k1 pos p1 t1 arbitrary: p2 t2 rule: finditer_kw.induct)
  case (1 kw pos prev t)
  note meq = kw_match_at_case[OF "1.prems"]
  have lk: "length kw = length k2" using "1.prems"(1) by (rule lower_length)
  note u1 = finditer_kw.simps[of kw pos prev t]
  note u2 = finditer_kw.simps[of k2 pos p2 t2]
  show ?case
  proof (cases "kw_match_at kw prev t")
    case True
    note m = True
    have m2: "kw_match_at k2 p2 t2" using m meq by blast
    show ?thesis
    proof (cases "kw = []")
      case True
      have k2e: "k2 = []" using lk True by simp
      show ?thesis
      proof (cases t)
        case Nil
        with "1.prems"(2) have t2: "t2 = []" by (simp add: lower_def)
        have "finditer_kw kw pos prev t = [(pos, [])]"
          unfolding u1 using m True Nil by simp
        moreover have "finditer_kw k2 pos p2 t2 = [(pos, [])]"
          unfolding u2 using m2 k2e t2 by simp
        ultimately show ?thesis by simp
      next
        case (Cons c cs)
        with "1.prems"(2) obtain c2 cs2 where t2: "t2 = c2 # cs2"
          and cc: "lower_char c = lower_char c2" and ll: "lower cs = lower cs2"
          by (cases t2) (auto simp: lower_def)
        have "is_word_opt (Some c) = is_word_opt (Some c2)"
          using lower_char_eq_word[OF cc] by (simp add: is_word_opt_def)
        note ih = "1.IH"(1)[OF m True Cons "1.prems"(1) ll this]
        have "finditer_kw kw pos prev t = (pos, []) # finditer_kw kw (Suc pos) (Some c) cs"
          unfolding u1 using m True Cons by simp
        moreover have "finditer_kw k2 pos p2 t2 = (pos, []) # finditer_kw k2 (Suc pos) (Some c2) cs2"
          unfolding u2 using m2 k2e t2 by simp
        ultimately show ?thesis using ih by simp
      qed
    next
      case False
      have k2ne: "k2 \<noteq> []" using lk False by auto
      let ?n = "length kw"
      from m have len: "?n \<le> length t" by (simp add: kw_match_at_iff ci_prefix_iff)
      have len2: "?n \<le> length t2" using len "1.prems"(2) by (auto dest: lower_length)
      have ne: "take ?n t \<noteq> []" "take ?n t2 \<noteq> []" using False len len2 by auto
      have ld: "lower (drop ?n t) = lower (drop ?n t2)"
        using "1.prems"(2) by (simp add: lower_drop)
      have "lower (take ?n t) = lower (take ?n t2)"
        using "1.prems"(2) by (simp add: lower_take)
      then have "is_word_opt (last_opt None (take ?n t)) = is_word_opt (last_opt None (take ?n t2))"
        by (rule last_opt_word_lower) simp
      then have w: "is_word_opt (Some (last (take ?n t))) = is_word_opt (Some (last (take ?n t2)))"
        using ne by (simp add: last_opt_def)
      note ih = "1.IH"(2)[OF m False "1.prems"(1) ld w]
      have "finditer_kw kw pos prev t = (pos, take ?n t) #
              finditer_kw kw (pos + ?n) (Some (last (take ?n t))) (drop ?n t)"
        unfolding u1 using m False by simp
      moreover have "finditer_kw k2 pos p2 t2 = (pos, take ?n t2) #
              finditer_kw k2 (pos + ?n) (Some (last (take ?n t2))) (drop ?n t2)"
        unfolding u2 lk[symmetric] using m2 k2ne by simp
      ultimately show ?thesis using ih by simp
    qed
  next
    case False
    have m2: "\<not> kw_match_at k2 p2 t2" using False meq by blast
    show ?thesis
    proof (cases t)
      case Nil
      with "1.prems"(2) have t2: "t2 = []" by (simp add: lower_def)
      have "finditer_kw kw pos prev t = []"
        unfolding u1 using False Nil by simp
      moreover have "finditer_kw k2 pos p2 t2 = []"
        unfolding u2 using m2 t2 by simp
      ultimately show ?thesis by simp
    next
      case (Cons c cs)
      with "1.prems"(2) obtain c2 cs2 where t2: "t2 = c2 # cs2"
        and cc: "lower_char c = lower_char c2" and ll: "lower cs = lower cs2"
        by (cases t2) (auto simp: lower_def)
      have "is_word_opt (Some c) = is_word_opt (Some c2)"
        using lower_char_eq_word[OF cc] by (simp add: is_word_opt_def)
      note ih = "1.IH"(3)[OF False Cons "1.prems"(1) ll this]
      have "finditer_kw kw pos prev t = finditer_kw kw (Suc pos) (Some c) cs"
        unfolding u1 using False Cons by simp
      moreover have "finditer_kw k2 pos p2 t2 = finditer_kw k2 (Suc pos) (Some c2) cs2"
        unfolding u2 using m2 t2 by simp
      ultimately show ?thesis using ih by simp
    qed
  qed
qed

lemma count_kw_case:
  "lower k1 = lower k2 \<Longrightarrow> lower t1 = lower t2 \<Longrightarrow> count_kw k1 t1 = count_kw k2 t2"
proof -
  assume "lower k1 = lower k2" "lower t1 = lower t2"
  then have "map fst (finditer_kw k1 0 None t1) = map fst (finditer_kw k2 0 None t2)"
    by (rule finditer_kw_case) simp
  then have "length (finditer_kw k1 0 None t1) = length (finditer_kw k2 0 None t2)"
    by (rule map_eq_imp_length_eq)
  then show ?thesis by (simp add: count_kw_def findall_kw_def)
qed

lemma finditer_kw_inside_word:
  "\<forall>c\<in>set t. is_word_char c \<Longrightarrow> is_word_opt prev \<Longrightarrow> kw \<noteq> [] \<Longrightarrow>
   finditer_kw kw pos prev t = []"
proof (induction t arbitrary: pos prev)
  case Nil
  then show ?case
    by (simp add: finditer_kw.simps[of kw pos prev "[]"] kw_match_at_iff ci_prefix_iff)
next
  case (Cons c cs)
  have "\<not> kw_match_at kw prev (c # cs)"
    using Cons.prems by (simp add: kw_match_at_iff word_boundary_def head_opt_def is_word_opt_def)
  moreover have "finditer_kw kw (Suc pos) (Some c) cs = []"
    using Cons.prems by (intro Cons.IH) (simp_all add: is_word_opt_def)
  ultimately show ?case
    by (simp add: finditer_kw.simps[of kw pos prev "c # cs"])
qed

lemma count_kw_single_word:
  assumes "\<forall>c\<in>set w. is_word_char c" and "kw \<noteq> []"
  shows "count_kw kw w = (if lower w = lower kw then 1 else 0)"
proof (cases w)
  case Nil
  with assms(2) show ?thesis
    by (simp add: count_kw_def findall_kw_def finditer_kw.simps[of kw 0 None "[]"]
        kw_match_at_iff ci_prefix_iff lower_def)
next
  case (Cons c cs)
  let ?n = "length kw"
  have wc: "is_word_char c" and wcs: "\<forall>c\<in>set cs. is_word_char c" using assms(1) Cons by auto
  have rest: "finditer_kw kw (Suc 0) (Some c) cs = []"
    using wcs assms(2) by (intro finditer_kw_inside_word) (simp_all add: is_word_opt_def wc)
  show ?thesis
  proof (cases "kw_match_at kw None w")
    case True
    then have len: "?n \<le> length w" and lw: "lower (take ?n w) = lower kw"
      and wb: "word_boundary (last_opt None (take ?n w)) (head_opt (drop ?n w))"
      by (simp_all add: kw_match_at_iff ci_prefix_iff)
    have ne: "take ?n w \<noteq> []" using assms(2) Cons by simp
    have "last (take ?n w) \<in> set w" using ne by (meson in_set_takeD last_in_set)
    then have "is_word_opt (last_opt None (take ?n w))"
      using ne assms(1) by (simp add: last_opt_def is_word_opt_def)
    with wb have nw: "\<not> is_word_opt (head_opt (drop ?n w))" by (simp add: word_boundary_def)
    have "drop ?n w = []"
    proof (rule ccontr)
      assume "drop ?n w \<noteq> []"
      then obtain d ds where d: "drop ?n w = d # ds" by (cases "drop ?n w") auto
      then have "d \<in> set w" by (metis in_set_dropD list.set_intros(1))
      with assms(1) d nw show False by (simp add: head_opt_def is_word_opt_def)
    qed
    with len have eq: "?n = length w" by simp
    with lw have low: "lower w = lower kw" by simp
    have "finditer_kw kw (0 + ?n) (Some (last (take ?n w))) (drop ?n w) = []"
      using \<open>drop ?n w = []\<close> assms(2)
      by (simp add: finditer_kw.simps[of kw _ _ "[]"] kw_match_at_iff ci_prefix_iff)
    with True assms(2) low show ?thesis
      unfolding count_kw_def findall_kw_def finditer_kw.simps[of kw 0 None w] by simp
  next
    case False
    have "lower w \<noteq> lower kw"
    proof
      assume low: "lower w = lower kw"
      then have "length w = ?n" by (rule lower_length)
      with low assms Cons have "kw_match_at kw None w"
        by (simp add: kw_match_at_iff ci_prefix_iff word_boundary_def head_opt_def
            is_word_opt_def last_opt_def)
      with False show False by simp
    qed
    with False rest Cons show ?thesis
      unfolding count_kw_def findall_kw_def finditer_kw.simps[of kw 0 None w] by simp
  qed
qed

lemma fitness_keywords_distinct: "distinct FITNESS_KEYWORDS"
  by code_simp

lemma fitness_keywords_wordlike:
  "\<forall>kw\<in>set FITNESS_KEYWORDS. kw \<noteq> [] \<and> is_word_char (hd kw) \<and> is_word_char (last kw)"
  by code_simp

lemma occurs_at_shift_iff:
  "occurs_at kw prev (u @ t) (length u + j) = occurs_at kw (last_opt prev u) t j"
  by (simp add: occurs_at_def last_opt_append)

lemma finditer_kw_covers:
  "occurs_at kw prev t j \<Longrightarrow> kw \<noteq> [] \<Longrightarrow>
   \<exists>(i, m) \<in> set (finditer_kw kw pos prev t). i \<le> pos + j \<and> pos + j < i + length kw"
proof (induction kw pos prev t arbitrary: j rule: finditer_kw.induct)
  case (1 kw pos prev t)
  note u = finditer_kw.simps[of kw pos prev t]
  let ?n = "length kw"
  have kne: "kw \<noteq> []" by (rule "1.prems"(2))
  show ?case
  proof (cases "kw_match_at kw prev t")
    case True
    have e: "finditer_kw kw pos prev t = (pos, take ?n t) #
              finditer_kw kw (pos + ?n) (Some (last (take ?n t))) (drop ?n t)"
      unfolding u using True kne by simp
    show ?thesis
    proof (cases "j < ?n")
      case True
      then show ?thesis unfolding e by simp
    next
      case False
      from True have len: "?n \<le> length t" by (simp add: kw_match_at_iff ci_prefix_iff)
      have ne: "take ?n t \<noteq> []" using kne len by auto
      have lo: "last_opt prev (take ?n t) = Some (last (take ?n t))"
        using ne by (simp add: last_opt_def)
      have "occurs_at kw prev (take ?n t @ drop ?n t) (length (take ?n t) + (j - ?n))"
        using "1.prems"(1) False len by simp
      then have "occurs_at kw (Some (last (take ?n t))) (drop ?n t) (j - ?n)"
        unfolding occurs_at_shift_iff lo .
      from "1.IH"(2)[OF True kne this kne]
      obtain i m where im: "(i, m) \<in> set (finditer_kw kw (pos + ?n) (Some (last (take ?n t))) (drop ?n t))"
        "i \<le> pos + ?n + (j - ?n)" "pos + ?n + (j - ?n) < i + ?n" by auto
      then have "(i, m) \<in> set (finditer_kw kw pos prev t)" "i \<le> pos + j" "pos + j < i + ?n"
        using False unfolding e by auto
      then show ?thesis by blast
    qed
  next
    case False
    have j0: "j \<noteq> 0"
    proof
      assume "j = 0"
      with "1.prems"(1) have "kw_match_at kw prev t" by (simp add: kw_match_at_occurs)
      with False show False by simp
    qed
    have "j + ?n \<le> length t" using "1.prems"(1) by (simp add: occurs_at_def)
    with j0 obtain c cs where Cons: "t = c # cs" by (cases t) auto
    have e: "finditer_kw kw pos prev t = finditer_kw kw (Suc pos) (Some c) cs"
      unfolding u using False Cons by simp
    have "occurs_at kw prev ([c] @ cs) (length [c] + (j - 1))"
      using "1.prems"(1) j0 Cons by simp
    then have "occurs_at kw (Some c) cs (j - 1)"
      unfolding occurs_at_shift_iff by (simp add: last_opt_def)
    from "1.IH"(3)[OF False Cons this kne]
    show ?thesis unfolding e using j0 by auto
  qed
qed

lemma occurs_at_whole_word:
  assumes "kw \<noteq> []" "is_word_char (hd kw)" "is_word_char (last kw)"
  shows "occurs_at kw None t i = whole_word_at kw t i"
proof (cases "i + length kw \<le> length t \<and> lower (take (length kw) (drop i t)) = lower kw")
  case False
  then show ?thesis by (auto simp: occurs_at_def whole_word_at_def)
next
  case True
  let ?n = "length kw"
  let ?m = "take ?n (drop i t)"
  have n0: "0 < ?n" using assms(1) by simp
  have "?n \<le> length t - i" using True by arith
  then have lm: "length ?m = ?n" by simp
  have mne: "?m \<noteq> []" using lm n0 by auto
  have low: "map lower_char ?m = map lower_char kw" using True by (simp add: lower_def)
  have "lower_char (hd ?m) = lower_char (hd kw)"
    using low mne assms(1) by (metis hd_map)
  then have hw: "is_word_char (hd ?m)" using assms(2) lower_char_eq_word by blast
  have "lower_char (last ?m) = lower_char (last kw)"
    using low mne assms(1) by (metis last_map)
  then have lw: "is_word_char (last ?m)" using assms(3) lower_char_eq_word by blast
  have il: "i < length t" and inl: "i + ?n \<le> length t" and il': "i \<le> length t"
    using True n0 by arith+
  have hd_eq: "hd ?m = t ! i"
    using n0 il by (simp add: hd_drop_conv_nth)
  have "last ?m = ?m ! (?n - 1)" using mne lm by (simp add: last_conv_nth)
  also have "\<dots> = t ! (i + (?n - 1))" using n0 inl by simp
  finally have last_eq: "last ?m = t ! (i + ?n - 1)" using n0 by simp
  have a: "head_opt (drop i t) = Some (t ! i)"
    unfolding head_opt_def Cons_nth_drop_Suc[OF il, symmetric] by simp
  have b: "last_opt None (take i t) = (if i = 0 then None else Some (t ! (i - 1)))"
  proof (cases "i = 0")
    case True
    then show ?thesis by (simp add: last_opt_def)
  next
    case False
    then have "take i t \<noteq> []" using il by auto
    moreover have "last (take i t) = t ! (i - 1)"
      using False il' \<open>take i t \<noteq> []\<close> by (simp add: last_conv_nth)
    ultimately show ?thesis using False by (simp add: last_opt_def)
  qed
  have tne: "take (i + ?n) t \<noteq> []" using n0 il by auto
  have "last (take (i + ?n) t) = t ! (i + ?n - 1)"
    using tne inl n0 by (simp add: last_conv_nth)
  then have c: "last_opt None (take (i + ?n) t) = Some (t ! (i + ?n - 1))"
    using tne by (simp add: last_opt_def)
  have d: "head_opt (drop (i + ?n) t) = (if i + ?n = length t then None else Some (t ! (i + ?n)))"
  proof (cases "i + ?n = length t")
    case True
    then show ?thesis by (simp add: head_opt_def)
  next
    case False
    then have "i + ?n < length t" using inl by arith
    from False show ?thesis
      unfolding head_opt_def Cons_nth_drop_Suc[OF \<open>i + ?n < length t\<close>, symmetric] by simp
  qed
  show ?thesis
    unfolding occurs_at_def whole_word_at_def a b c d word_boundary_def
    using True hw lw hd_eq last_eq by (auto simp: is_word_opt_def)
qed

section \<open>Properties of the Scorer\<close>

lemma score_step_fst:
  "fst (score_step t k st) = fst st + count_kw k t"
  by (simp add: score_step_def Let_def)

lemma fold_score_step_fst:
  "fst (fold (score_step t) kws st) = fst st + sum_list (map (\<lambda>k. count_kw k t) kws)"
  by (induction kws arbitrary: st) (simp_all add: score_step_fst)

lemma alist_update_fresh:
  "k \<notin> fst ` set al \<Longrightarrow> AList.update k v al = al @ [(k, v)]"
  by (induction al) auto

lemma score_step_snd_keys:
  "fst ` set (snd (score_step t k st)) \<subseteq> insert k (fst ` set (snd st))"
  by (auto simp: score_step_def Let_def AList.dom_update)

lemma fold_score_step_snd:
  "distinct kws \<Longrightarrow> set kws \<inter> fst ` set (snd st) = {} \<Longrightarrow>
   snd (fold (score_step t) kws st) =
     snd st @ filter (\<lambda>p. 0 < snd p) (map (\<lambda>k. (k, count_kw k t)) kws)"
proof (induction kws arbitrary: st)
  case Nil
  then show ?case by simp
next
  case (Cons k kws)
  have fresh: "k \<notin> fst ` set (snd st)" using Cons.prems(2) by auto
  have d: "distinct kws" and kn: "k \<notin> set kws" using Cons.prems(1) by auto
  have disj: "set kws \<inter> fst ` set (snd (score_step t k st)) = {}"
    using score_step_snd_keys[of t k st] Cons.prems(2) kn by auto
  have step: "snd (score_step t k st) =
      snd st @ filter (\<lambda>p. 0 < snd p) [(k, count_kw k t)]"
    using fresh by (simp add: score_step_def Let_def alist_update_fresh)
  show ?case
    using Cons.IH[OF d disj] step by simp
qed

lemma calculate_fitness_score_total:
  "fst (calculate_fitness_score kws t) = sum_list (map (\<lambda>k. count_kw k t) kws)"
  by (simp add: calculate_fitness_score_def fold_score_step_fst)

lemma calculate_fitness_score_matches:
  "distinct kws \<Longrightarrow>
   snd (calculate_fitness_score kws t) =
     filter (\<lambda>p. 0 < snd p) (map (\<lambda>k. (k, count_kw k t)) kws)"
  by (simp add: calculate_fitness_score_def fold_score_step_snd)

lemma sum_list_mset_cong:
  fixes f :: "'a \<Rightarrow> nat"
  shows "mset xs = mset ys \<Longrightarrow> sum_list (map f xs) = sum_list (map f ys)"
proof -
  assume "mset xs = mset ys"
  then have "mset (map f xs) = mset (map f ys)" by (metis mset_map)
  then show ?thesis by (metis sum_mset_sum_list)
qed

lemma total_order_independent:
  "mset k1 = mset k2 \<Longrightarrow>
   fst (calculate_fitness_score k1 t) = fst (calculate_fitness_score k2 t)"
  unfolding calculate_fitness_score_total by (rule sum_list_mset_cong)

lemma scan_file_result:
  "scan_file kws m f acc = acc @ (case scan_result kws m f of None \<Rightarrow> [] | Some e \<Rightarrow> [e])"
  by (simp add: scan_file_def scan_result_def entry_of_def split: option.splits prod.splits)

lemma fold_scan_file:
  "fold (scan_file kws m) fs acc = acc @ List.map_filter (scan_result kws m) fs"
  by (induction fs arbitrary: acc)
     (simp_all add: scan_file_result split: option.splits)

lemma find_fitness_videos_eq:
  "find_fitness_videos kws (Some fs) m =
     sorted_reverse fitness_score (List.map_filter (scan_result kws m) fs)"
proof -
  have "fold (scan_file kws m) fs [] = List.map_filter (scan_result kws m) fs"
    using fold_scan_file[of kws m fs "[]"] by simp
  then show ?thesis
    by (cases "fs = []") (simp_all add: find_fitness_videos_def sorted_reverse_def)
qed

lemma find_fitness_videos_missing_dir: "find_fitness_videos kws None m = []"
  by (simp add: find_fitness_videos_def)

lemma mset_sorted_reverse: "mset (sorted_reverse k xs) = mset xs"
  by (simp add: sorted_reverse_def)

lemma set_sorted_reverse: "set (sorted_reverse k xs) = set xs"
  by (simp add: sorted_reverse_def)

lemma sorted_reverse_descending:
  "sorted_wrt (\<lambda>a b. k b \<le> k a) (sorted_reverse k xs)"
proof -
  have "sorted (map k (sort_key k (rev xs)))" by simp
  then have "sorted_wrt (\<lambda>a b. k a \<le> k b) (sort_key k (rev xs))"
    by (simp add: sorted_map)
  then show ?thesis
    by (simp add: sorted_reverse_def sorted_wrt_rev)
qed

lemma load_transcript_filename: "load_transcript f = Some tr \<Longrightarrow> t_filename tr = fst f"
  by (cases "snd f") (auto simp: load_transcript_def Let_def)

lemma scan_result_Some:
  assumes "scan_result kws m f = Some e"
  shows "qualifies kws m f \<and> filename e = fst f \<and> file_score kws f = Some (fitness_score e)"
proof -
  from assms obtain tr where tr: "load_transcript f = Some tr"
    and q: "m \<le> int (fst (calculate_fitness_score kws (t_text tr)))"
    and e: "e = entry_of kws tr"
    by (auto simp: scan_result_def split: option.splits if_splits)
  have "filename e = fst f"
    using e load_transcript_filename[OF tr] by (simp add: entry_of_def)
  moreover have "file_score kws f = Some (fitness_score e)"
    using e tr by (simp add: file_score_def entry_of_def)
  moreover have "qualifies kws m f"
    using tr q by (simp add: qualifies_def file_score_def)
  ultimately show ?thesis by simp
qed

lemma scan_result_None: "scan_result kws m f = None \<Longrightarrow> \<not> qualifies kws m f"
  by (auto simp: scan_result_def qualifies_def file_score_def split: option.splits if_splits)

lemma map_filter_scan_filenames:
  "map filename (List.map_filter (scan_result kws m) fs) = map fst (filter (qualifies kws m) fs)"
proof (induction fs)
  case Nil
  then show ?case by simp
next
  case (Cons f fs)
  show ?case
  proof (cases "scan_result kws m f")
    case None
    with Cons scan_result_None[OF None] show ?thesis by simp
  next
    case (Some e)
    with Cons scan_result_Some[OF Some] show ?thesis by simp
  qed
qed

lemma find_fitness_videos_filenames:
  "mset (map filename (find_fitness_videos kws (Some fs) m)) =
     mset (map fst (filter (qualifies kws m) fs))"
proof -
  have "mset (map filename (find_fitness_videos kws (Some fs) m)) =
        image_mset filename (mset (List.map_filter (scan_result kws m) fs))"
    by (simp add: find_fitness_videos_eq mset_sorted_reverse)
  also have "\<dots> = mset (map filename (List.map_filter (scan_result kws m) fs))" by simp
  finally show ?thesis by (simp only: map_filter_scan_filenames)
qed

lemma find_fitness_videos_entries:
  assumes "e \<in> set (find_fitness_videos kws (Some fs) m)"
  shows "\<exists>f \<in> set fs. filename e = fst f \<and> file_score kws f = Some (fitness_score e)
           \<and> m \<le> int (fitness_score e)"
proof -
  from assms have "e \<in> set (List.map_filter (scan_result kws m) fs)"
    by (simp add: find_fitness_videos_eq set_sorted_reverse)
  then obtain f where f: "f \<in> set fs" "scan_result kws m f = Some e"
    by (auto simp: List.map_filter_def)
  from scan_result_Some[OF f(2)] have "qualifies kws m f" "filename e = fst f"
    "file_score kws f = Some (fitness_score e)" by simp_all
  with f(1) show ?thesis by (auto simp: qualifies_def)
qed

lemma find_fitness_videos_ranked:
  "sorted_wrt (\<lambda>a b. fitness_score b \<le> fitness_score a) (find_fitness_videos kws d m)"
  by (cases d) (simp_all add: find_fitness_videos_eq find_fitness_videos_missing_dir
      sorted_reverse_descending)

subsection \<open>Evaluating the scan on a concrete text\<close>

lemma is_word_char_ascii:
  "is_word_char (CHR 0x0A) = False \<and>
   is_word_char (CHR 0x20) = False \<and>
   is_word_char (CHR 0x21) = False \<and>
   is_word_char (CHR 0x22) = False \<and>
   is_word_char (CHR 0x23) = False \<and>
   is_word_char (CHR 0x24) = False \<and>
   is_word_char (CHR 0x25) = False \<and>
   is_word_char (CHR 0x26) = False \<and>
   is_word_char (CHR 0x27) = False \<and>
   is_word_char (CHR 0x28) = False \<and>
   is_word_char (CHR 0x29) = False \<and>
   is_word_char (CHR 0x2A) = False \<and>
   is_word_char (CHR 0x2B) = False \<and>
   is_word_char (CHR 0x2C) = False \<and>
   is_word_char (CHR 0x2D) = False \<and>
   is_word_char (CHR 0x2E) = False \<and>
   is_word_char (CHR 0x2F) = False \<and>
   is_word_char (CHR 0x30) = True \<and>
   is_word_char (CHR 0x31) = True \<and>
   is_word_char (CHR 0x32) = True \<and>
   is_word_char (CHR 0x33) = True \<and>
   is_word_char (CHR 0x34) = True \<and>
   is_word_char (CHR 0x35) = True \<and>
   is_word_char (CHR 0x36) = True \<and>
   is_word_char (CHR 0x37) = True \<and>
   is_word_char (CHR 0x38) = True \<and>
   is_word_char (CHR 0x39) = True \<and>
   is_word_char (CHR 0x3A) = False \<and>
   is_word_char (CHR 0x3B) = False \<and>
   is_word_char (CHR 0x3C) = False \<and>
   is_word_char (CHR 0x3D) = False \<and>
   is_word_char (CHR 0x3E) = False \<and>
   is_word_char (CHR 0x3F) = False \<and>
   is_word_char (CHR 0x40) = False \<and>
   is_word_char (CHR 0x41) = True \<and>
   is_word_char (CHR 0x42) = True \<and>
   is_word_char (CHR 0x43) = True \<and>
   is_word_char (CHR 0x44) = True \<and>
   is_word_char (CHR 0x45) = True \<and>
   is_word_char (CHR 0x46) = True \<and>
   is_word_char (CHR 0x47) = True \<and>
   is_word_char (CHR 0x48) = True \<and>
   is_word_char (CHR 0x49) = True \<and>
   is_word_char (CHR 0x4A) = True \<and>
   is_word_char (CHR 0x4B) = True \<and>
   is_word_char (CHR 0x4C) = True \<and>
   is_word_char (CHR 0x4D) = True \<and>
   is_word_char (CHR 0x4E) = True \<and>
   is_word_char (CHR 0x4F) = True \<and>
   is_word_char (CHR 0x50) = True \<and>
   is_word_char (CHR 0x51) = True \<and>
   is_word_char (CHR 0x52) = True \<and>
   is_word_char (CHR 0x53) = True \<and>
   is_word_char (CHR 0x54) = True \<and>
   is_word_char (CHR 0x55) = True \<and>
   is_word_char (CHR 0x56) = True \<and>
   is_word_char (CHR 0x57) = True \<and>
   is_word_char (CHR 0x58) = True \<and>
   is_word_char (CHR 0x59) = True \<and>
   is_word_char (CHR 0x5A) = True \<and>
   is_word_char (CHR 0x5B) = False \<and>
   is_word_char (CHR 0x5C) = False \<and>
   is_word_char (CHR 0x5D) = False \<and>
   is_word_char (CHR 0x5E) = False \<and>
   is_word_char (CHR 0x5F) = True \<and>
   is_word_char (CHR 0x60) = False \<and>
   is_word_char (CHR 0x61) = True \<and>
   is_word_char (CHR 0x62) = True \<and>
   is_word_char (CHR 0x63) = True \<and>
   is_word_char (CHR 0x64) = True \<and>
   is_word_char (CHR 0x65) = True \<and>
   is_word_char (CHR 0x66) = True \<and>
   is_word_char (CHR 0x67) = True \<and>
   is_word_char (CHR 0x68) = True \<and>
   is_word_char (CHR 0x69) = True \<and>
   is_word_char (CHR 0x6A) = True \<and>
   is_word_char (CHR 0x6B) = True \<and>
   is_word_char (CHR 0x6C) = True \<and>
   is_word_char (CHR 0x6D) = True \<and>
   is_word_char (CHR 0x6E) = True \<and>
   is_word_char (CHR 0x6F) = True \<and>
   is_word_char (CHR 0x70) = True \<and>
   is_word_char (CHR 0x71) = True \<and>
   is_word_char (CHR 0x72) = True \<and>
   is_word_char (CHR 0x73) = True \<and>
   is_word_char (CHR 0x74) = True \<and>
   is_word_char (CHR 0x75) = True \<and>
   is_word_char (CHR 0x76) = True \<and>
   is_word_char (CHR 0x77) = True \<and>
   is_word_char (CHR 0x78) = True \<and>
   is_word_char (CHR 0x79) = True \<and>
   is_word_char (CHR 0x7A) = True \<and>
   is_word_char (CHR 0x7B) = False \<and>
   is_word_char (CHR 0x7C) = False \<and>
   is_word_char (CHR 0x7D) = False \<and>
   is_word_char (CHR 0x7E) = False"
  by (simp add: is_word_char_def code_def)

lemma lower_char_ascii:
  "lower_char (CHR 0x0A) = CHR 0x0A \<and>
   lower_char (CHR 0x20) = CHR 0x20 \<and>
   lower_char (CHR 0x21) = CHR 0x21 \<and>
   lower_char (CHR 0x22) = CHR 0x22 \<and>
   lower_char (CHR 0x23) = CHR 0x23 \<and>
   lower_char (CHR 0x24) = CHR 0x24 \<and>
   lower_char (CHR 0x25) = CHR 0x25 \<and>
   lower_char (CHR 0x26) = CHR 0x26 \<and>
   lower_char (CHR 0x27) = CHR 0x27 \<and>
   lower_char (CHR 0x28) = CHR 0x28 \<and>
   lower_char (CHR 0x29) = CHR 0x29 \<and>
   lower_char (CHR 0x2A) = CHR 0x2A \<and>
   lower_char (CHR 0x2B) = CHR 0x2B \<and>
   lower_char (CHR 0x2C) = CHR 0x2C \<and>
   lower_char (CHR 0x2D) = CHR 0x2D \<and>
   lower_char (CHR 0x2E) = CHR 0x2E \<and>
   lower_char (CHR 0x2F) = CHR 0x2F \<and>
   lower_char (CHR 0x30) = CHR 0x30 \<and>
   lower_char (CHR 0x31) = CHR 0x31 \<and>
   lower_char (CHR 0x32) = CHR 0x32 \<and>
   lower_char (CHR 0x33) = CHR 0x33 \<and>
   lower_char (CHR 0x34) = CHR 0x34 \<and>
   lower_char (CHR 0x35) = CHR 0x35 \<and>
   lower_char (CHR 0x36) = CHR 0x36 \<and>
   lower_char (CHR 0x37) = CHR 0x37 \<and>
   lower_char (CHR 0x38) = CHR 0x38 \<and>
   lower_char (CHR 0x39) = CHR 0x39 \<and>
   lower_char (CHR 0x3A) = CHR 0x3A \<and>
   lower_char (CHR 0x3B) = CHR 0x3B \<and>
   lower_char (CHR 0x3C) = CHR 0x3C \<and>
   lower_char (CHR 0x3D) = CHR 0x3D \<and>
   lower_char (CHR 0x3E) = CHR 0x3E \<and>
   lower_char (CHR 0x3F) = CHR 0x3F \<and>
   lower_char (CHR 0x40) = CHR 0x40 \<and>
   lower_char (CHR 0x41) = CHR 0x61 \<and>
   lower_char (CHR 0x42) = CHR 0x62 \<and>
   lower_char (CHR 0x43) = CHR 0x63 \<and>
   lower_char (CHR 0x44) = CHR 0x64 \<and>
   lower_char (CHR 0x45) = CHR 0x65 \<and>
   lower_char (CHR 0x46) = CHR 0x66 \<and>
   lower_char (CHR 0x47) = CHR 0x67 \<and>
   lower_char (CHR 0x48) = CHR 0x68 \<and>
   lower_char (CHR 0x49) = CHR 0x69 \<and>
   lower_char (CHR 0x4A) = CHR 0x6A \<and>
   lower_char (CHR 0x4B) = CHR 0x6B \<and>
   lower_char (CHR 0x4C) = CHR 0x6C \<and>
   lower_char (CHR 0x4D) = CHR 0x6D \<and>
   lower_char (CHR 0x4E) = CHR 0x6E \<and>
   lower_char (CHR 0x4F) = CHR 0x6F \<and>
   lower_char (CHR 0x50) = CHR 0x70 \<and>
   lower_char (CHR 0x51) = CHR 0x71 \<and>
   lower_char (CHR 0x52) = CHR 0x72 \<and>
   lower_char (CHR 0x53) = CHR 0x73 \<and>
   lower_char (CHR 0x54) = CHR 0x74 \<and>
   lower_char (CHR 0x55) = CHR 0x75 \<and>
   lower_char (CHR 0x56) = CHR 0x76 \<and>
   lower_char (CHR 0x57) = CHR 0x77 \<and>
   lower_char (CHR 0x58) = CHR 0x78 \<and>
   lower_char (CHR 0x59) = CHR 0x79 \<and>
   lower_char (CHR 0x5A) = CHR 0x7A \<and>
   lower_char (CHR 0x5B) = CHR 0x5B \<and>
   lower_char (CHR 0x5C) = CHR 0x5C \<and>
   lower_char (CHR 0x5D) = CHR 0x5D \<and>
   lower_char (CHR 0x5E) = CHR 0x5E \<and>
   lower_char (CHR 0x5F) = CHR 0x5F \<and>
   lower_char (CHR 0x60) = CHR 0x60 \<and>
   lower_char (CHR 0x61) = CHR 0x61 \<and>
   lower_char (CHR 0x62) = CHR 0x62 \<and>
   lower_char (CHR 0x63) = CHR 0x63 \<and>
   lower_char (CHR 0x64) = CHR 0x64 \<and>
   lower_char (CHR 0x65) = CHR 0x65 \<and>
   lower_char (CHR 0x66) = CHR 0x66 \<and>
   lower_char (CHR 0x67) = CHR 0x67 \<and>
   lower_char (CHR 0x68) = CHR 0x68 \<and>
   lower_char (CHR 0x69) = CHR 0x69 \<and>
   lower_char (CHR 0x6A) = CHR 0x6A \<and>
   lower_char (CHR 0x6B) = CHR 0x6B \<and>
   lower_char (CHR 0x6C) = CHR 0x6C \<and>
   lower_char (CHR 0x6D) = CHR 0x6D \<and>
   lower_char (CHR 0x6E) = CHR 0x6E \<and>
   lower_char (CHR 0x6F) = CHR 0x6F \<and>
   lower_char (CHR 0x70) = CHR 0x70 \<and>
   lower_char (CHR 0x71) = CHR 0x71 \<and>
   lower_char (CHR 0x72) = CHR 0x72 \<and>
   lower_char (CHR 0x73) = CHR 0x73 \<and>
   lower_char (CHR 0x74) = CHR 0x74 \<and>
   lower_char (CHR 0x75) = CHR 0x75 \<and>
   lower_char (CHR 0x76) = CHR 0x76 \<and>
   lower_char (CHR 0x77) = CHR 0x77 \<and>
   lower_char (CHR 0x78) = CHR 0x78 \<and>
   lower_char (CHR 0x79) = CHR 0x79 \<and>
   lower_char (CHR 0x7A) = CHR 0x7A \<and>
   lower_char (CHR 0x7B) = CHR 0x7B \<and>
   lower_char (CHR 0x7C) = CHR 0x7C \<and>
   lower_char (CHR 0x7D) = CHR 0x7D \<and>
   lower_char (CHR 0x7E) = CHR 0x7E"
  by code_simp

lemmas scan_eval = count_kw_def findall_kw_def finditer_kw.simps kw_match_at_def
  word_boundary_def is_word_opt_def head_opt_def last_opt_def
  is_word_char_ascii lower_char_ascii

lemma count_kw_absent_char:
  assumes "c \<in> set (lower kw)" and "c \<notin> set (lower t)"
  shows "count_kw kw t = 0"
proof (rule ccontr)
  assume "count_kw kw t \<noteq> 0"
  then have "finditer_kw kw 0 None t \<noteq> []"
    by (simp add: count_kw_def findall_kw_def)
  then obtain i m where "(i, m) \<in> set (finditer_kw kw 0 None t)"
    by (cases "finditer_kw kw 0 None t") auto
  from finditer_kw_sound[OF this]
  have "lower (take (length kw) (drop i t)) = lower kw"
    by (simp add: occurs_at_def)
  with assms(1) have "c \<in> set (lower (take (length kw) (drop i t)))" by simp
  then have "c \<in> lower_char ` set (take (length kw) (drop i t))" by (simp add: lower_def)
  then have "c \<in> lower_char ` set t"
    by (meson image_mono in_mono set_drop_subset set_take_subset)
  with assms(2) show False by (simp add: lower_def)
qed

lemma count_kw_outside_alphabet:
  assumes "set (lower t) \<subseteq> set alphabet" and "\<exists>c \<in> set (lower kw). c \<notin> set alphabet"
  shows "count_kw kw t = 0"
  using assms count_kw_absent_char by blast

lemma example_alphabet: "set (lower example_text) \<subseteq> set ''squat deadlift''"
  by (simp add: example_text_def lower_def lower_char_ascii)

lemma example_counts:
  "map (\<lambda>k. count_kw k example_text) FITNESS_KEYWORDS = [0, 0, 0, 0, 0, 0, 0, 0, 0, 0, 0, 0, 0, 0, 0, 0, 0, 0, 0, 0, 0, 0, 3, 2, 0, 0, 0, 0, 0, 0, 0, 0, 0, 0, 0, 0, 0, 0, 0, 0, 0, 0, 0, 0, 0, 0, 0, 0, 0, 0, 0, 0, 0, 0, 0, 0, 0, 0, 0, 0, 0, 0, 0, 0, 0, 0, 0, 0, 0, 0, 0, 0, 0, 0, 0, 0, 0, 0, 0, 0, 0, 0, 0, 0, 0, 0, 0, 0, 0, 0, 0, 0]"
  apply (simp add: FITNESS_KEYWORDS_def count_kw_outside_alphabet[OF example_alphabet]
      lower_def lower_char_ascii)
  apply (simp add: scan_eval example_text_def)
  done

lemma example_total:
  "sum_list (map (\<lambda>k. count_kw k example_text) FITNESS_KEYWORDS) = 5"
  unfolding example_counts by simp

lemma example_no_separator: "find_sub example_text separator = None"
  by code_simp

lemma example_lower: "lower example_text = example_text"
  by code_simp

lemma example_load:
  "\<exists>tr. load_transcript example_transcript = Some tr \<and> t_text tr = example_text"
  by (simp add: load_transcript_def example_transcript_def Let_def
      example_no_separator example_lower)

lemma vocabulary_order_distinct: "mset kws = mset FITNESS_KEYWORDS \<Longrightarrow> distinct kws"
  using fitness_keywords_distinct by (metis mset_eq_imp_distinct_iff)

lemma qualifies_iff:
  "qualifies kws m f = (\<exists>s. file_score kws f = Some s \<and> m \<le> int s)"
  by (cases "file_score kws f") (simp_all add: qualifies_def)

lemma example_entries:
  assumes "mset kws = mset FITNESS_KEYWORDS"
  shows "map fitness_score (find_fitness_videos kws (Some [example_transcript]) 5) = [5]"
    and "find_fitness_videos kws (Some [example_transcript]) 6 = []"
proof -
  from example_load obtain tr where tr: "load_transcript example_transcript = Some tr"
    and tx: "t_text tr = example_text" by blast
  have "fst (calculate_fitness_score kws example_text) =
        fst (calculate_fitness_score FITNESS_KEYWORDS example_text)"
    using assms by (rule total_order_independent)
  then have sc: "fst (calculate_fitness_score kws (t_text tr)) = 5"
    by (simp add: tx calculate_fitness_score_total example_total)
  have r5: "scan_result kws 5 example_transcript = Some (entry_of kws tr)"
    by (simp add: scan_result_def tr sc)
  have r6: "scan_result kws 6 example_transcript = None"
    by (simp add: scan_result_def tr sc)
  show "map fitness_score (find_fitness_videos kws (Some [example_transcript]) 5) = [5]"
    by (simp add: find_fitness_videos_eq r5 sorted_reverse_def entry_of_def sc)
  show "find_fitness_videos kws (Some [example_transcript]) 6 = []"
    by (simp add: find_fitness_videos_eq r6 sorted_reverse_def)
qed

text \<open>
  Claim C2. Whatever the order in which the vocabulary is iterated: the total score is
  the sum of the whole-word match counts of the keywords, and the match map holds the
  keywords with a count above zero; a file qualifies exactly when it can be read and its
  score is at least the threshold, and the entries returned are those of the qualifying
  files, each with the score of its file; the entries are ranked by descending score. The
  transcript with \<open>squat\<close> three times and \<open>deadlift\<close> twice has score 5, is returned at
  threshold 5 and is not returned at threshold 6.
\<close>

theorem scorer_total_threshold_ranking:
  assumes "mset kws = mset FITNESS_KEYWORDS"
  shows "fst (calculate_fitness_score kws t) =
           sum_list (map (\<lambda>k. count_kw k t) FITNESS_KEYWORDS)
       \<and> snd (calculate_fitness_score kws t) =
           filter (\<lambda>p. 0 < snd p) (map (\<lambda>k. (k, count_kw k t)) kws)
       \<and> (\<forall>f. qualifies kws m f = (\<exists>s. file_score kws f = Some s \<and> m \<le> int s))
       \<and> mset (map filename (find_fitness_videos kws (Some fs) m)) =
           mset (map fst (filter (qualifies kws m) fs))
       \<and> (\<forall>e \<in> set (find_fitness_videos kws (Some fs) m).
             \<exists>f \<in> set fs. filename e = fst f \<and> file_score kws f = Some (fitness_score e)
               \<and> m \<le> int (fitness_score e))
       \<and> sorted_wrt (\<lambda>a b. fitness_score b \<le> fitness_score a) (find_fitness_videos kws d m)
       \<and> count_kw ''squat'' example_text = 3 \<and> count_kw ''deadlift'' example_text = 2
       \<and> map fitness_score (find_fitness_videos kws (Some [example_transcript]) 5) = [5]
       \<and> find_fitness_videos kws (Some [example_transcript]) 6 = []"
proof -
  have a: "fst (calculate_fitness_score kws t) =
             sum_list (map (\<lambda>k. count_kw k t) FITNESS_KEYWORDS)"
    unfolding calculate_fitness_score_total using assms by (rule sum_list_mset_cong)
  have b: "snd (calculate_fitness_score kws t) =
             filter (\<lambda>p. 0 < snd p) (map (\<lambda>k. (k, count_kw k t)) kws)"
    using vocabulary_order_distinct[OF assms] by (rule calculate_fitness_score_matches)
  have c: "\<forall>f. qualifies kws m f = (\<exists>s. file_score kws f = Some s \<and> m \<le> int s)"
    using qualifies_iff by blast
  have e: "\<forall>e \<in> set (find_fitness_videos kws (Some fs) m).
             \<exists>f \<in> set fs. filename e = fst f \<and> file_score kws f = Some (fitness_score e)
               \<and> m \<le> int (fitness_score e)"
    using find_fitness_videos_entries by blast
  have g: "count_kw ''squat'' example_text = 3" "count_kw ''deadlift'' example_text = 2"
    by (simp_all add: scan_eval example_text_def)
  from a b c find_fitness_videos_filenames[of kws fs m] e
    find_fitness_videos_ranked[of kws d m] g example_entries[OF assms]
  show ?thesis by (intro conjI)
qed

theorem scorer_total_threshold_ranking_witness:
  "mset FITNESS_KEYWORDS = mset FITNESS_KEYWORDS
   \<and> map fitness_score (find_fitness_videos FITNESS_KEYWORDS (Some [example_transcript]) 5) = [5]
   \<and> find_fitness_videos FITNESS_KEYWORDS (Some [example_transcript]) 6 = []"
proof -
  have h: "mset FITNESS_KEYWORDS = mset FITNESS_KEYWORDS" by (rule refl)
  note T = scorer_total_threshold_ranking[OF h, of "[]" 0 "[]" None]
  note L = T[THEN conjunct2, THEN conjunct2, THEN conjunct2, THEN conjunct2,
      THEN conjunct2, THEN conjunct2, THEN conjunct2, THEN conjunct2]
  from h L show ?thesis by (intro conjI) (simp_all only:)
qed

subsection \<open>The iteration order of the vocabulary\<close>

lemma insort_key_map:
  "map f (insort_key (\<lambda>x. g (f x)) x xs) = insort_key g (f x) (map f xs)"
  by (induction xs) simp_all

lemma sort_key_map:
  "map f (sort_key (\<lambda>x. g (f x)) xs) = sort_key g (map f xs)"
  by (induction xs) (simp_all add: insort_key_map)

lemma sorted_reverse_map:
  "map f (sorted_reverse (\<lambda>x. g (f x)) xs) = sorted_reverse g (map f xs)"
proof -
  have "map f (rev (sort_key (\<lambda>x. g (f x)) (rev xs))) =
        rev (map f (sort_key (\<lambda>x. g (f x)) (rev xs)))"
    by (simp only: rev_map)
  also have "\<dots> = rev (sort_key g (map f (rev xs)))"
    by (simp only: sort_key_map)
  also have "\<dots> = rev (sort_key g (rev (map f xs)))"
    by (simp only: rev_map)
  finally show ?thesis by (simp only: sorted_reverse_def)
qed

lemma sorted_reverse_mset_cong:
  fixes xs ys :: "nat list"
  assumes "mset xs = mset ys"
  shows "sorted_reverse (\<lambda>x. x) xs = sorted_reverse (\<lambda>x. x) ys"
proof -
  have "sort_key (\<lambda>x. x) (rev xs) = sort_key (\<lambda>x. x) (rev ys)"
    by (rule properties_for_sort) (simp_all add: assms)
  then show ?thesis by (simp add: sorted_reverse_def)
qed

lemma matches_mset_cong:
  assumes "mset k1 = mset k2" and "distinct k1" and "distinct k2"
  shows "mset (snd (calculate_fitness_score k1 t)) = mset (snd (calculate_fitness_score k2 t))"
proof -
  have "mset (map (\<lambda>k. (k, count_kw k t)) k1) = mset (map (\<lambda>k. (k, count_kw k t)) k2)"
    using assms(1) by (metis mset_map)
  then have "filter_mset (\<lambda>p. 0 < snd p) (mset (map (\<lambda>k. (k, count_kw k t)) k1)) =
             filter_mset (\<lambda>p. 0 < snd p) (mset (map (\<lambda>k. (k, count_kw k t)) k2))"
    by (simp only:)
  then show ?thesis
    by (simp only: calculate_fitness_score_matches[OF assms(2)]
        calculate_fitness_score_matches[OF assms(3)] mset_filter)
qed

lemma top_counts_order_independent:
  assumes "mset k1 = mset k2" and "distinct k1" and "distinct k2"
  shows "map snd (take 10 (sorted_reverse snd (snd (calculate_fitness_score k1 t)))) =
         map snd (take 10 (sorted_reverse snd (snd (calculate_fitness_score k2 t))))"
proof -
  let ?m1 = "snd (calculate_fitness_score k1 t)"
  let ?m2 = "snd (calculate_fitness_score k2 t)"
  have "mset (map snd ?m1) = mset (map snd ?m2)"
    using matches_mset_cong[OF assms] by (metis mset_map)
  then have "sorted_reverse (\<lambda>x. x) (map snd ?m1) = sorted_reverse (\<lambda>x. x) (map snd ?m2)"
    by (rule sorted_reverse_mset_cong)
  moreover have "map snd (sorted_reverse snd ?m1) = sorted_reverse (\<lambda>x. x) (map snd ?m1)"
    by (rule sorted_reverse_map[of snd "\<lambda>x. x"])
  moreover have "map snd (sorted_reverse snd ?m2) = sorted_reverse (\<lambda>x. x) (map snd ?m2)"
    by (rule sorted_reverse_map[of snd "\<lambda>x. x"])
  ultimately have "map snd (sorted_reverse snd ?m1) = map snd (sorted_reverse snd ?m2)"
    by (simp only:)
  then have "take 10 (map snd (sorted_reverse snd ?m1)) = take 10 (map snd (sorted_reverse snd ?m2))"
    by (rule arg_cong)
  then show ?thesis by (simp only: take_map)
qed

lemma entry_core_order_independent:
  assumes "mset k1 = mset k2" and "distinct k1" and "distinct k2"
  shows "entry_core (entry_of k1 tr) = entry_core (entry_of k2 tr)"
  using total_order_independent[OF assms(1), of "t_text tr"]
    top_counts_order_independent[OF assms, of "t_text tr"]
  by (simp add: entry_core_def entry_of_def)

lemma scan_result_core_order_independent:
  assumes "mset k1 = mset k2" and "distinct k1" and "distinct k2"
  shows "map_option entry_core (scan_result k1 m f) = map_option entry_core (scan_result k2 m f)"
  using total_order_independent[OF assms(1)] entry_core_order_independent[OF assms]
  by (simp add: scan_result_def split: option.splits)

lemma map_map_filter: "map g (List.map_filter h xs) = List.map_filter (\<lambda>x. map_option g (h x)) xs"
  by (induction xs) (simp_all split: option.splits)

lemma fitness_score_core: "fitness_score e = fst (snd (snd (snd (entry_core e))))"
  by (simp add: entry_core_def)

lemma find_fitness_videos_core:
  "map entry_core (find_fitness_videos kws (Some fs) m) =
     sorted_reverse (\<lambda>c. fst (snd (snd (snd c))))
       (List.map_filter (\<lambda>f. map_option entry_core (scan_result kws m f)) fs)"
proof -
  have "sorted_reverse fitness_score (List.map_filter (scan_result kws m) fs) =
        sorted_reverse (\<lambda>e. fst (snd (snd (snd (entry_core e))))) (List.map_filter (scan_result kws m) fs)"
    by (simp add: fitness_score_core[abs_def])
  moreover have "map entry_core
        (sorted_reverse (\<lambda>e. fst (snd (snd (snd (entry_core e))))) (List.map_filter (scan_result kws m) fs)) =
      sorted_reverse (\<lambda>c. fst (snd (snd (snd c)))) (map entry_core (List.map_filter (scan_result kws m) fs))"
    by (rule sorted_reverse_map[of entry_core "\<lambda>c. fst (snd (snd (snd c)))"])
  ultimately show ?thesis
    by (simp only: find_fitness_videos_eq map_map_filter)
qed

lemma find_fitness_videos_core_order_independent:
  assumes "mset k1 = mset k2" and "distinct k1" and "distinct k2"
  shows "map entry_core (find_fitness_videos k1 d m) = map entry_core (find_fitness_videos k2 d m)"
proof (cases d)
  case None
  then show ?thesis by (simp add: find_fitness_videos_missing_dir)
next
  case (Some fs)
  show ?thesis
    unfolding Some find_fitness_videos_core
    by (simp add: scan_result_core_order_independent[OF assms])
qed

lemma tie_alphabet: "set (lower tie_text) \<subseteq> set ''squat deadlift''"
  by (simp add: tie_text_def lower_def lower_char_ascii)

lemma tie_counts:
  "map (\<lambda>k. count_kw k tie_text) FITNESS_KEYWORDS = [0, 0, 0, 0, 0, 0, 0, 0, 0, 0, 0, 0, 0, 0, 0, 0, 0, 0, 0, 0, 0, 0, 1, 1, 0, 0, 0, 0, 0, 0, 0, 0, 0, 0, 0, 0, 0, 0, 0, 0, 0, 0, 0, 0, 0, 0, 0, 0, 0, 0, 0, 0, 0, 0, 0, 0, 0, 0, 0, 0, 0, 0, 0, 0, 0, 0, 0, 0, 0, 0, 0, 0, 0, 0, 0, 0, 0, 0, 0, 0, 0, 0, 0, 0, 0, 0, 0, 0, 0, 0, 0, 0]"
  apply (simp add: FITNESS_KEYWORDS_def count_kw_outside_alphabet[OF tie_alphabet]
      lower_def lower_char_ascii)
  apply (simp add: scan_eval tie_text_def)
  done

lemma tie_no_separator: "find_sub tie_text separator = None"
  by code_simp

lemma tie_lower: "lower tie_text = tie_text"
  by code_simp

lemma tie_load:
  "\<exists>tr. load_transcript tie_transcript = Some tr \<and> t_text tr = tie_text"
  by (simp add: load_transcript_def tie_transcript_def Let_def tie_no_separator tie_lower)

lemma pair_map_zip: "map (\<lambda>k. (k, f k)) xs = zip xs (map f xs)"
  by (induction xs) simp_all

lemma tie_pairs:
  "map (\<lambda>k. (k, count_kw k tie_text)) FITNESS_KEYWORDS =
     zip FITNESS_KEYWORDS (map (\<lambda>k. count_kw k tie_text) FITNESS_KEYWORDS)"
  by (rule pair_map_zip)

lemma tie_pairs_nonzero:
  "filter (\<lambda>p. 0 < snd p) (map (\<lambda>k. (k, count_kw k tie_text)) FITNESS_KEYWORDS) =
     [(''squat'', 1), (''deadlift'', 1)]"
  unfolding tie_pairs tie_counts by (simp add: FITNESS_KEYWORDS_def)

lemma tie_matches:
  "snd (calculate_fitness_score FITNESS_KEYWORDS tie_text) = [(''squat'', 1), (''deadlift'', 1)]"
  by (simp only: calculate_fitness_score_matches[OF fitness_keywords_distinct] tie_pairs_nonzero)

lemma tie_matches_rev:
  "snd (calculate_fitness_score (rev FITNESS_KEYWORDS) tie_text) = [(''deadlift'', 1), (''squat'', 1)]"
proof -
  have d: "distinct (rev FITNESS_KEYWORDS)" using fitness_keywords_distinct by simp
  have "filter (\<lambda>p. 0 < snd p) (map (\<lambda>k. (k, count_kw k tie_text)) (rev FITNESS_KEYWORDS)) =
        rev (filter (\<lambda>p. 0 < snd p) (map (\<lambda>k. (k, count_kw k tie_text)) FITNESS_KEYWORDS))"
    by (simp only: rev_map rev_filter)
  also have "\<dots> = [(''deadlift'', 1), (''squat'', 1)]"
    unfolding tie_pairs_nonzero by simp
  finally show ?thesis
    by (simp only: calculate_fitness_score_matches[OF d])
qed

lemma tie_total: "fst (calculate_fitness_score kws tie_text) = sum_list (map (\<lambda>k. count_kw k tie_text) kws)"
  by (rule calculate_fitness_score_total)

lemma sorted_reverse_single: "sorted_reverse k [x] = [x]"
  by (simp add: sorted_reverse_def)

lemma tie_total_value:
  "sum_list (map (\<lambda>k. count_kw k tie_text) FITNESS_KEYWORDS) = 2"
  unfolding tie_counts by simp

lemma tie_entries:
  assumes "mset kws = mset FITNESS_KEYWORDS"
  shows "\<exists>tr. load_transcript tie_transcript = Some tr \<and> t_text tr = tie_text \<and>
           find_fitness_videos kws (Some [tie_transcript]) 2 = [entry_of kws tr]"
proof -
  from tie_load obtain tr where tr: "load_transcript tie_transcript = Some tr"
    and tx: "t_text tr = tie_text" by blast
  have "fst (calculate_fitness_score kws tie_text) =
        fst (calculate_fitness_score FITNESS_KEYWORDS tie_text)"
    using assms by (rule total_order_independent)
  then have sc: "fst (calculate_fitness_score kws (t_text tr)) = 2"
    by (simp add: tx calculate_fitness_score_total tie_total_value)
  have "scan_result kws 2 tie_transcript = Some (entry_of kws tr)"
    by (simp add: scan_result_def tr sc)
  then have "find_fitness_videos kws (Some [tie_transcript]) 2 = [entry_of kws tr]"
    by (simp add: find_fitness_videos_eq sorted_reverse_single)
  with tr tx show ?thesis by blast
qed

lemma tie_top_keywords:
  "map top_keywords (find_fitness_videos FITNESS_KEYWORDS (Some [tie_transcript]) 2) =
     [[(''squat'', 1), (''deadlift'', 1)]]"
proof -
  from tie_entries[OF refl] obtain tr where "t_text tr = tie_text"
    "find_fitness_videos FITNESS_KEYWORDS (Some [tie_transcript]) 2 = [entry_of FITNESS_KEYWORDS tr]"
    by blast
  then show ?thesis
    by (simp add: entry_of_def tie_matches sorted_reverse_def)
qed

lemma tie_top_keywords_rev:
  "map top_keywords (find_fitness_videos (rev FITNESS_KEYWORDS) (Some [tie_transcript]) 2) =
     [[(''deadlift'', 1), (''squat'', 1)]]"
proof -
  have "mset (rev FITNESS_KEYWORDS) = mset FITNESS_KEYWORDS" by simp
  from tie_entries[OF this] obtain tr where "t_text tr = tie_text"
    "find_fitness_videos (rev FITNESS_KEYWORDS) (Some [tie_transcript]) 2 =
       [entry_of (rev FITNESS_KEYWORDS) tr]"
    by blast
  then show ?thesis
    by (simp add: entry_of_def tie_matches_rev sorted_reverse_def)
qed

text \<open>
  Claim C9, as stated, fails: the order in which Python iterates the set of keywords is an
  input of the Scorer that the transcript directory does not fix. On a transcript in which
  \<open>squat\<close> and \<open>deadlift\<close> both occur once, two iteration orders of the same vocabulary
  give two different lists of top keywords.
\<close>

theorem scorer_output_depends_on_iteration_order:
  "mset (rev FITNESS_KEYWORDS) = mset FITNESS_KEYWORDS
   \<and> map top_keywords (find_fitness_videos FITNESS_KEYWORDS (Some [tie_transcript]) 2) =
       [[(''squat'', 1), (''deadlift'', 1)]]
   \<and> map top_keywords (find_fitness_videos (rev FITNESS_KEYWORDS) (Some [tie_transcript]) 2) =
       [[(''deadlift'', 1), (''squat'', 1)]]
   \<and> find_fitness_videos FITNESS_KEYWORDS (Some [tie_transcript]) 2 \<noteq>
       find_fitness_videos (rev FITNESS_KEYWORDS) (Some [tie_transcript]) 2"
proof -
  have a: "mset (rev FITNESS_KEYWORDS) = mset FITNESS_KEYWORDS" by simp
  have "map top_keywords (find_fitness_videos FITNESS_KEYWORDS (Some [tie_transcript]) 2) \<noteq>
        map top_keywords (find_fitness_videos (rev FITNESS_KEYWORDS) (Some [tie_transcript]) 2)"
    unfolding tie_top_keywords tie_top_keywords_rev by simp
  then have d: "find_fitness_videos FITNESS_KEYWORDS (Some [tie_transcript]) 2 \<noteq>
       find_fitness_videos (rev FITNESS_KEYWORDS) (Some [tie_transcript]) 2"
    by auto
  from a tie_top_keywords tie_top_keywords_rev d show ?thesis by (intro conjI)
qed

lemma list_all2_insort_key:
  assumes "list_all2 R xs ys" and "R x y" and "\<And>a b. R a b \<Longrightarrow> k a = k b"
  shows "list_all2 R (insort_key k x xs) (insort_key k y ys)"
  using assms(1)
proof (induction rule: list_all2_induct)
  case Nil
  then show ?case using assms(2) by simp
next
  case (Cons a xs b ys)
  have "k a = k b" "k x = k y" using Cons.hyps(1) assms(2) assms(3) by blast+
  then show ?case using Cons assms(2) by simp
qed

lemma list_all2_sort_key:
  assumes "list_all2 R xs ys" and "\<And>a b. R a b \<Longrightarrow> k a = k b"
  shows "list_all2 R (sort_key k xs) (sort_key k ys)"
  using assms(1)
proof (induction rule: list_all2_induct)
  case Nil
  then show ?case by simp
next
  case (Cons a xs b ys)
  then show ?case using list_all2_insort_key[OF Cons.IH Cons.hyps(1) assms(2)] by simp
qed

lemma list_all2_sorted_reverse:
  assumes "list_all2 R xs ys" and "\<And>a b. R a b \<Longrightarrow> k a = k b"
  shows "list_all2 R (sorted_reverse k xs) (sorted_reverse k ys)"
proof -
  have "list_all2 R (rev xs) (rev ys)" using assms(1) by simp
  then have "list_all2 R (sort_key k (rev xs)) (sort_key k (rev ys))"
    using assms(2) by (rule list_all2_sort_key)
  then show ?thesis by (simp add: sorted_reverse_def)
qed

lemma list_all2_scan_result:
  assumes "mset k1 = mset k2"
  shows "list_all2 (\<lambda>e1 e2. \<exists>f tr. f \<in> set fs \<and> load_transcript f = Some tr \<and>
                       e1 = entry_of k1 tr \<and> e2 = entry_of k2 tr)
           (List.map_filter (scan_result k1 m) fs) (List.map_filter (scan_result k2 m) fs)"
proof -
  have "list_all2 (\<lambda>e1 e2. \<exists>f tr. f \<in> set fs \<and> load_transcript f = Some tr \<and>
                       e1 = entry_of k1 tr \<and> e2 = entry_of k2 tr)
           (List.map_filter (scan_result k1 m) gs) (List.map_filter (scan_result k2 m) gs)"
    if "set gs \<subseteq> set fs" for gs
    using that
  proof (induction gs)
    case Nil
    then show ?case by simp
  next
    case (Cons g gs)
    have g: "g \<in> set fs" and gs: "set gs \<subseteq> set fs" using Cons.prems by simp_all
    have sc: "fst (calculate_fitness_score k1 t) = fst (calculate_fitness_score k2 t)" for t
      using assms by (rule total_order_independent)
    show ?case
    proof (cases "scan_result k1 m g")
      case None
      moreover have "(scan_result k1 m g = None) = (scan_result k2 m g = None)"
        by (simp add: scan_result_def sc split: option.splits)
      ultimately have "scan_result k2 m g = None" by simp
      with None Cons.IH[OF gs] show ?thesis by simp
    next
      case (Some e)
      then obtain tr where tr: "load_transcript g = Some tr" and e: "e = entry_of k1 tr"
        and m: "m \<le> int (fst (calculate_fitness_score k1 (t_text tr)))"
        by (auto simp add: scan_result_def split: option.splits if_splits)
      then have s2: "scan_result k2 m g = Some (entry_of k2 tr)"
        by (simp add: scan_result_def sc)
      have "\<exists>f tr'. f \<in> set fs \<and> load_transcript f = Some tr' \<and>
               e = entry_of k1 tr' \<and> entry_of k2 tr = entry_of k2 tr'"
        using g tr e by blast
      with Some s2 Cons.IH[OF gs] show ?thesis by simp
    qed
  qed
  then show ?thesis by simp
qed

lemma sorted_reverse_stable:
  "filter (\<lambda>y. k y = c) (sorted_reverse k xs) = filter (\<lambda>y. k y = c) xs"
proof -
  have "filter (\<lambda>y. k y = c) (sorted_reverse k xs) = rev (filter (\<lambda>y. k y = c) (sort_key k (rev xs)))"
    by (simp only: sorted_reverse_def rev_filter)
  also have "\<dots> = rev (filter (\<lambda>y. k y = c) (rev xs))"
    by (simp only: sort_key_stable)
  also have "\<dots> = filter (\<lambda>y. k y = c) xs"
    by (simp only: rev_filter rev_rev_ident)
  finally show ?thesis .
qed

lemma entry_of_top_keywords:
  assumes "distinct kws"
  shows "top_keywords (entry_of kws tr) =
           take 10 (sorted_reverse snd
             (filter (\<lambda>p. 0 < snd p) (map (\<lambda>k. (k, count_kw k (t_text tr))) kws)))"
  by (simp add: entry_of_def calculate_fitness_score_matches[OF assms])

lemma top_keywords_listed:
  assumes "distinct kws" and "(k, c) \<in> set (top_keywords (entry_of kws tr))"
  shows "k \<in> set kws \<and> c = count_kw k (t_text tr) \<and> 0 < c"
proof -
  have "(k, c) \<in> set (sorted_reverse snd
             (filter (\<lambda>p. 0 < snd p) (map (\<lambda>k. (k, count_kw k (t_text tr))) kws)))"
    using assms(2) unfolding entry_of_top_keywords[OF assms(1)] by (rule in_set_takeD)
  then have "(k, c) \<in> set (filter (\<lambda>p. 0 < snd p) (map (\<lambda>k. (k, count_kw k (t_text tr))) kws))"
    by (simp only: set_sorted_reverse)
  then show ?thesis by auto
qed

lemma top_keywords_ties_in_iteration_order:
  assumes "distinct kws"
  shows "prefix (filter (\<lambda>p. snd p = c) (top_keywords (entry_of kws tr)))
           (map (\<lambda>k. (k, c)) (filter (\<lambda>k. count_kw k (t_text tr) = c) kws))"
proof (cases "0 < c")
  case True
  let ?ms = "filter (\<lambda>p. 0 < snd p) (map (\<lambda>k. (k, count_kw k (t_text tr))) kws)"
  have "prefix (filter (\<lambda>p. snd p = c) (take 10 (sorted_reverse snd ?ms)))
          (filter (\<lambda>p. snd p = c) (sorted_reverse snd ?ms))"
    by (rule filter_mono_prefix) (rule take_is_prefix)
  moreover have "filter (\<lambda>p. snd p = c) (sorted_reverse snd ?ms) = filter (\<lambda>p. snd p = c) ?ms"
    by (rule sorted_reverse_stable)
  moreover have "filter (\<lambda>p. snd p = c) ?ms =
        map (\<lambda>k. (k, c)) (filter (\<lambda>k. count_kw k (t_text tr) = c) kws)"
    using True by (induction kws) auto
  ultimately show ?thesis by (simp only: entry_of_top_keywords[OF assms])
next
  case False
  have "filter (\<lambda>p. snd p = c) (top_keywords (entry_of kws tr)) = []"
    using top_keywords_listed[OF assms, of _ _ tr] False
    by (auto simp add: filter_empty_conv)
  then show ?thesis by simp
qed

text \<open>
  Claim C9, amended. For two iteration orders of the vocabulary the ranked output lists the
  same transcripts in the same order, entry by entry with the same identifier, URL, file name
  and score. The top keywords of an entry are the first ten of the matched keywords, taken in
  iteration order and sorted stably by decreasing count: every listed pair is a keyword of the
  vocabulary with its own count in the transcript, the counts at every rank are the same for
  both orders, the two lists can differ at a rank only by naming two different keywords with
  the same count, and the listed keywords of one count are an initial segment of the keywords
  with that count in iteration order.
\<close>

theorem scorer_output_same_up_to_ties:
  assumes "mset k1 = mset FITNESS_KEYWORDS" and "mset k2 = mset FITNESS_KEYWORDS"
  shows "find_fitness_videos k1 None m = find_fitness_videos k2 None m
       \<and> list_all2 (\<lambda>e1 e2. \<exists>f tr. f \<in> set fs \<and> load_transcript f = Some tr \<and>
                       e1 = entry_of k1 tr \<and> e2 = entry_of k2 tr)
           (find_fitness_videos k1 (Some fs) m) (find_fitness_videos k2 (Some fs) m)
       \<and> video_id (entry_of k1 tr) = video_id (entry_of k2 tr)
       \<and> url (entry_of k1 tr) = url (entry_of k2 tr)
       \<and> filename (entry_of k1 tr) = filename (entry_of k2 tr)
       \<and> fitness_score (entry_of k1 tr) = fitness_score (entry_of k2 tr)
       \<and> top_keywords (entry_of k1 tr) =
           take 10 (sorted_reverse snd
             (filter (\<lambda>p. 0 < snd p) (map (\<lambda>k. (k, count_kw k (t_text tr))) k1)))
       \<and> map snd (top_keywords (entry_of k1 tr)) = map snd (top_keywords (entry_of k2 tr))
       \<and> (\<forall>(k, c) \<in> set (top_keywords (entry_of k1 tr)).
             k \<in> set FITNESS_KEYWORDS \<and> c = count_kw k (t_text tr) \<and> 0 < c)
       \<and> (\<forall>j < length (top_keywords (entry_of k1 tr)).
             top_keywords (entry_of k1 tr) ! j \<noteq> top_keywords (entry_of k2 tr) ! j \<longrightarrow>
               fst (top_keywords (entry_of k1 tr) ! j) \<noteq> fst (top_keywords (entry_of k2 tr) ! j)
             \<and> count_kw (fst (top_keywords (entry_of k1 tr) ! j)) (t_text tr) =
               count_kw (fst (top_keywords (entry_of k2 tr) ! j)) (t_text tr))
       \<and> (\<forall>c. prefix (filter (\<lambda>p. snd p = c) (top_keywords (entry_of k1 tr)))
                 (map (\<lambda>k. (k, c)) (filter (\<lambda>k. count_kw k (t_text tr) = c) k1)))"
proof -
  have eq: "mset k1 = mset k2" using assms by simp
  have d1: "distinct k1" and d2: "distinct k2"
    using assms by (simp_all add: vocabulary_order_distinct)
  have s1: "set k1 = set FITNESS_KEYWORDS" using assms(1) by (rule mset_eq_setD)
  let ?t1 = "top_keywords (entry_of k1 tr)"
  let ?t2 = "top_keywords (entry_of k2 tr)"
  have sc: "fst (calculate_fitness_score k1 t) = fst (calculate_fitness_score k2 t)" for t
    using eq by (rule total_order_independent)
  have a: "find_fitness_videos k1 None m = find_fitness_videos k2 None m"
    by (simp add: find_fitness_videos_missing_dir)
  have b: "list_all2 (\<lambda>e1 e2. \<exists>f tr. f \<in> set fs \<and> load_transcript f = Some tr \<and>
                       e1 = entry_of k1 tr \<and> e2 = entry_of k2 tr)
           (find_fitness_videos k1 (Some fs) m) (find_fitness_videos k2 (Some fs) m)"
    unfolding find_fitness_videos_eq
  proof (rule list_all2_sorted_reverse[OF list_all2_scan_result[OF eq]])
    fix e1 e2
    assume "\<exists>f tr. f \<in> set fs \<and> load_transcript f = Some tr \<and>
                       e1 = entry_of k1 tr \<and> e2 = entry_of k2 tr"
    then show "fitness_score e1 = fitness_score e2"
      by (auto simp add: entry_of_def sc)
  qed
  have c: "video_id (entry_of k1 tr) = video_id (entry_of k2 tr)"
    "url (entry_of k1 tr) = url (entry_of k2 tr)"
    "filename (entry_of k1 tr) = filename (entry_of k2 tr)"
    "fitness_score (entry_of k1 tr) = fitness_score (entry_of k2 tr)"
    by (simp_all add: entry_of_def sc)
  have d: "?t1 = take 10 (sorted_reverse snd
             (filter (\<lambda>p. 0 < snd p) (map (\<lambda>k. (k, count_kw k (t_text tr))) k1)))"
    using d1 by (rule entry_of_top_keywords)
  have e: "map snd ?t1 = map snd ?t2"
    using top_counts_order_independent[OF eq d1 d2, of "t_text tr"]
    by (simp add: entry_of_def)
  have f: "\<forall>(k, c) \<in> set ?t1. k \<in> set FITNESS_KEYWORDS \<and> c = count_kw k (t_text tr) \<and> 0 < c"
    using top_keywords_listed[OF d1, of _ _ tr] s1 by blast
  have g: "\<forall>j < length ?t1. ?t1 ! j \<noteq> ?t2 ! j \<longrightarrow>
               fst (?t1 ! j) \<noteq> fst (?t2 ! j)
             \<and> count_kw (fst (?t1 ! j)) (t_text tr) = count_kw (fst (?t2 ! j)) (t_text tr)"
  proof (intro allI impI)
    fix j
    assume j: "j < length ?t1" and ne: "?t1 ! j \<noteq> ?t2 ! j"
    have len: "length ?t1 = length ?t2" using e by (rule map_eq_imp_length_eq)
    have "map snd ?t1 ! j = map snd ?t2 ! j" using e by simp
    then have sn: "snd (?t1 ! j) = snd (?t2 ! j)" using j len by simp
    have "(fst (?t1 ! j), snd (?t1 ! j)) \<in> set ?t1" using j by simp
    then have c1: "snd (?t1 ! j) = count_kw (fst (?t1 ! j)) (t_text tr)"
      using top_keywords_listed[OF d1] by blast
    have "(fst (?t2 ! j), snd (?t2 ! j)) \<in> set ?t2" using j len by simp
    then have c2: "snd (?t2 ! j) = count_kw (fst (?t2 ! j)) (t_text tr)"
      using top_keywords_listed[OF d2] by blast
    from ne sn have "fst (?t1 ! j) \<noteq> fst (?t2 ! j)" by (simp add: prod_eq_iff)
    moreover from sn c1 c2
    have "count_kw (fst (?t1 ! j)) (t_text tr) = count_kw (fst (?t2 ! j)) (t_text tr)" by simp
    ultimately show "fst (?t1 ! j) \<noteq> fst (?t2 ! j)
             \<and> count_kw (fst (?t1 ! j)) (t_text tr) = count_kw (fst (?t2 ! j)) (t_text tr)" ..
  qed
  have h: "\<forall>c. prefix (filter (\<lambda>p. snd p = c) ?t1)
                 (map (\<lambda>k. (k, c)) (filter (\<lambda>k. count_kw k (t_text tr) = c) k1))"
    using top_keywords_ties_in_iteration_order[OF d1] by blast
  from a b c d e f g h show ?thesis by (intro conjI)
qed

theorem scorer_output_same_up_to_ties_witness:
  "mset FITNESS_KEYWORDS = mset FITNESS_KEYWORDS
   \<and> mset (rev FITNESS_KEYWORDS) = mset FITNESS_KEYWORDS
   \<and> list_all2 (\<lambda>e1 e2. \<exists>f tr. f \<in> set [tie_transcript] \<and> load_transcript f = Some tr \<and>
                       e1 = entry_of FITNESS_KEYWORDS tr \<and> e2 = entry_of (rev FITNESS_KEYWORDS) tr)
       (find_fitness_videos FITNESS_KEYWORDS (Some [tie_transcript]) 2)
       (find_fitness_videos (rev FITNESS_KEYWORDS) (Some [tie_transcript]) 2)
   \<and> top_keywords (entry_of FITNESS_KEYWORDS tie_record) = [(''squat'', 1), (''deadlift'', 1)]
   \<and> top_keywords (entry_of (rev FITNESS_KEYWORDS) tie_record) = [(''deadlift'', 1), (''squat'', 1)]
   \<and> (''squat'', 1) \<in> set (top_keywords (entry_of FITNESS_KEYWORDS tie_record))
   \<and> ''squat'' \<in> set FITNESS_KEYWORDS
   \<and> count_kw ''squat'' tie_text = 1
   \<and> 0 < length (top_keywords (entry_of FITNESS_KEYWORDS tie_record))
   \<and> top_keywords (entry_of FITNESS_KEYWORDS tie_record) ! 0 \<noteq>
       top_keywords (entry_of (rev FITNESS_KEYWORDS) tie_record) ! 0
   \<and> count_kw ''squat'' tie_text = count_kw ''deadlift'' tie_text
   \<and> prefix (filter (\<lambda>p. snd p = 1) (top_keywords (entry_of FITNESS_KEYWORDS tie_record)))
       (map (\<lambda>k. (k, 1)) (filter (\<lambda>k. count_kw k tie_text = 1) FITNESS_KEYWORDS))"
proof -
  have h1: "mset FITNESS_KEYWORDS = mset FITNESS_KEYWORDS" by (rule refl)
  have h2: "mset (rev FITNESS_KEYWORDS) = mset FITNESS_KEYWORDS" by simp
  note inst = scorer_output_same_up_to_ties[OF h1 h2, of 2 "[tie_transcript]" tie_record]
  have tx: "t_text tie_record = tie_text" by (simp add: tie_record_def)
  have t1: "top_keywords (entry_of FITNESS_KEYWORDS tie_record) = [(''squat'', 1), (''deadlift'', 1)]"
    by (simp add: entry_of_def tx tie_matches sorted_reverse_def)
  have t2: "top_keywords (entry_of (rev FITNESS_KEYWORDS) tie_record) = [(''deadlift'', 1), (''squat'', 1)]"
    by (simp add: entry_of_def tx tie_matches_rev sorted_reverse_def)
  have b: "list_all2 (\<lambda>e1 e2. \<exists>f tr. f \<in> set [tie_transcript] \<and> load_transcript f = Some tr \<and>
                       e1 = entry_of FITNESS_KEYWORDS tr \<and> e2 = entry_of (rev FITNESS_KEYWORDS) tr)
       (find_fitness_videos FITNESS_KEYWORDS (Some [tie_transcript]) 2)
       (find_fitness_videos (rev FITNESS_KEYWORDS) (Some [tie_transcript]) 2)"
    using inst by (elim conjE)
  have m: "(''squat'', 1) \<in> set (top_keywords (entry_of FITNESS_KEYWORDS tie_record))"
    by (simp add: t1)
  have f: "\<forall>(k, c) \<in> set (top_keywords (entry_of FITNESS_KEYWORDS tie_record)).
             k \<in> set FITNESS_KEYWORDS \<and> c = count_kw k (t_text tie_record) \<and> 0 < c"
    using inst by (elim conjE)
  from f m have sq: "''squat'' \<in> set FITNESS_KEYWORDS" "count_kw ''squat'' tie_text = 1"
    unfolding tx by fastforce+
  have l: "0 < length (top_keywords (entry_of FITNESS_KEYWORDS tie_record))" by (simp add: t1)
  have ne: "top_keywords (entry_of FITNESS_KEYWORDS tie_record) ! 0 \<noteq>
       top_keywords (entry_of (rev FITNESS_KEYWORDS) tie_record) ! 0"
    by (simp add: t1 t2)
  have g: "\<forall>j < length (top_keywords (entry_of FITNESS_KEYWORDS tie_record)).
             top_keywords (entry_of FITNESS_KEYWORDS tie_record) ! j \<noteq>
             top_keywords (entry_of (rev FITNESS_KEYWORDS) tie_record) ! j \<longrightarrow>
               fst (top_keywords (entry_of FITNESS_KEYWORDS tie_record) ! j) \<noteq>
               fst (top_keywords (entry_of (rev FITNESS_KEYWORDS) tie_record) ! j)
             \<and> count_kw (fst (top_keywords (entry_of FITNESS_KEYWORDS tie_record) ! j)) (t_text tie_record) =
               count_kw (fst (top_keywords (entry_of (rev FITNESS_KEYWORDS) tie_record) ! j)) (t_text tie_record)"
    using inst by (elim conjE)
  from g l ne have "count_kw (fst (top_keywords (entry_of FITNESS_KEYWORDS tie_record) ! 0)) (t_text tie_record) =
               count_kw (fst (top_keywords (entry_of (rev FITNESS_KEYWORDS) tie_record) ! 0)) (t_text tie_record)"
    by blast
  then have tie: "count_kw ''squat'' tie_text = count_kw ''deadlift'' tie_text"
    by (simp add: t1 t2 tx)
  have h: "\<forall>c. prefix (filter (\<lambda>p. snd p = c) (top_keywords (entry_of FITNESS_KEYWORDS tie_record)))
                 (map (\<lambda>k. (k, c)) (filter (\<lambda>k. count_kw k (t_text tie_record) = c) FITNESS_KEYWORDS))"
    using inst by (elim conjE)
  from h have p: "prefix (filter (\<lambda>p. snd p = 1) (top_keywords (entry_of FITNESS_KEYWORDS tie_record)))
       (map (\<lambda>k. (k, 1)) (filter (\<lambda>k. count_kw k tie_text = 1) FITNESS_KEYWORDS))"
    unfolding tx by (rule spec)
  from h1 h2 b t1 t2 m sq l ne tie p show ?thesis by (intro conjI)
qed

section \<open>Properties of the pattern over any alphabet\<close>

lemma re_match_at_occurs:
  "re_match_at isw ci kw prev text = re_occurs_at isw ci kw prev text 0"
  by (auto simp: re_match_at_iff re_occurs_at_def re_literal_iff re_last_opt_def)

lemma re_last_opt_append: "re_last_opt prev (u @ v) = re_last_opt (re_last_opt prev u) v"
  by (simp add: re_last_opt_def)

lemma re_occurs_at_shift_iff:
  "re_occurs_at isw ci kw prev (u @ t) (length u + j) =
   re_occurs_at isw ci kw (re_last_opt prev u) t j"
  by (simp add: re_occurs_at_def re_last_opt_append)

lemma re_occurs_at_Cons:
  "re_occurs_at isw ci kw prev (c # cs) (Suc j) = re_occurs_at isw ci kw (Some c) cs j"
  using re_occurs_at_shift_iff[of isw ci kw prev "[c]" cs j]
  by (simp add: re_last_opt_def)

lemma re_occurs_at_drop:
  assumes "n \<le> length t" and "0 < n"
  shows "re_occurs_at isw ci kw prev t (n + j) =
         re_occurs_at isw ci kw (Some (last (take n t))) (drop n t) j"
proof -
  have ne: "take n t \<noteq> []" using assms by auto
  have "re_occurs_at isw ci kw prev (take n t @ drop n t) (length (take n t) + j) =
        re_occurs_at isw ci kw (re_last_opt prev (take n t)) (drop n t) j"
    by (rule re_occurs_at_shift_iff)
  moreover have "length (take n t) = n" using assms(1) by simp
  moreover have "re_last_opt prev (take n t) = Some (last (take n t))"
    using ne by (simp add: re_last_opt_def)
  ultimately show ?thesis by simp
qed

lemma re_finditer_match:
  assumes "re_match_at isw ci kw prev t" and "kw \<noteq> []"
  shows "re_finditer isw ci kw pos prev t =
           (pos, take (length kw) t) #
             re_finditer isw ci kw (pos + length kw)
               (Some (last (take (length kw) t))) (drop (length kw) t)"
  using assms by (simp add: re_finditer.simps[of isw ci kw pos prev t])

lemma re_finditer_skip:
  assumes "\<not> re_match_at isw ci kw prev (c # cs)"
  shows "re_finditer isw ci kw pos prev (c # cs) = re_finditer isw ci kw (Suc pos) (Some c) cs"
  using assms by (simp add: re_finditer.simps[of isw ci kw pos prev "c # cs"])

lemma re_finditer_end:
  assumes "kw \<noteq> []"
  shows "re_finditer isw ci kw pos prev [] = []"
  using assms
  by (simp add: re_finditer.simps[of isw ci kw pos prev "[]"] re_match_at_iff re_literal_iff)

lemma re_finditer_sound:
  "(i, m) \<in> set (re_finditer isw ci kw pos prev t) \<Longrightarrow> kw \<noteq> [] \<Longrightarrow>
     pos \<le> i \<and> re_occurs_at isw ci kw prev t (i - pos) \<and> m = take (length kw) (drop (i - pos) t)"
proof (induction isw ci kw pos prev t rule: re_finditer.induct)
  case (1 isw ci kw pos prev t)
  let ?n = "length kw"
  have kne: "kw \<noteq> []" by (rule "1.prems"(2))
  show ?case
  proof (cases "re_match_at isw ci kw prev t")
    case True
    from True have len: "?n \<le> length t" by (simp add: re_match_at_iff re_literal_iff)
    have n0: "0 < ?n" using kne by simp
    from "1.prems"(1) re_finditer_match[OF True kne, of pos]
    consider "i = pos" "m = take ?n t"
      | "(i, m) \<in> set (re_finditer isw ci kw (pos + ?n) (Some (last (take ?n t))) (drop ?n t))"
      by auto
    then show ?thesis
    proof cases
      case 1
      with True show ?thesis by (simp add: re_match_at_occurs)
    next
      case 2
      from "1.IH"(2)[OF True kne 2 kne]
      have a: "pos + ?n \<le> i"
        "re_occurs_at isw ci kw (Some (last (take ?n t))) (drop ?n t) (i - (pos + ?n))"
        "m = take ?n (drop (i - (pos + ?n)) (drop ?n t))" by simp_all
      have "re_occurs_at isw ci kw prev t (?n + (i - (pos + ?n)))"
        unfolding re_occurs_at_drop[OF len n0] by (rule a(2))
      moreover have "?n + (i - (pos + ?n)) = i - pos" using a(1) by simp
      moreover have "drop (i - (pos + ?n)) (drop ?n t) = drop (i - pos) t"
        using a(1) by (simp add: add.commute)
      ultimately show ?thesis using a by simp
    qed
  next
    case False
    show ?thesis
    proof (cases t)
      case Nil
      with "1.prems"(1) kne show ?thesis by (simp add: re_finditer_end)
    next
      case (Cons c cs)
      from "1.prems"(1) False Cons
      have 2: "(i, m) \<in> set (re_finditer isw ci kw (Suc pos) (Some c) cs)"
        by (simp add: re_finditer_skip)
      from "1.IH"(3)[OF False Cons 2 kne]
      have a: "Suc pos \<le> i" "re_occurs_at isw ci kw (Some c) cs (i - Suc pos)"
           "m = take (length kw) (drop (i - Suc pos) cs)" by simp_all
      have "re_occurs_at isw ci kw prev (c # cs) (Suc (i - Suc pos))"
        unfolding re_occurs_at_Cons by (rule a(2))
      moreover have "Suc (i - Suc pos) = i - pos" using a(1) by simp
      moreover have "drop (i - Suc pos) cs = drop (i - pos) (c # cs)"
        using a(1) by (simp add: Suc_diff_Suc drop_Cons')
      ultimately show ?thesis using a Cons by simp
    qed
  qed
qed

lemma re_finditer_increasing:
  "kw \<noteq> [] \<Longrightarrow>
   sorted_wrt (\<lambda>a b. fst a + length kw \<le> fst b) (re_finditer isw ci kw pos prev t)"
proof (induction isw ci kw pos prev t rule: re_finditer.induct)
  case (1 isw ci kw pos prev t)
  let ?n = "length kw"
  have kne: "kw \<noteq> []" by (rule "1.prems")
  show ?case
  proof (cases "re_match_at isw ci kw prev t")
    case True
    let ?rest = "re_finditer isw ci kw (pos + ?n) (Some (last (take ?n t))) (drop ?n t)"
    have "\<forall>x \<in> set ?rest. pos + ?n \<le> fst x"
    proof
      fix x
      assume "x \<in> set ?rest"
      then have "(fst x, snd x) \<in> set ?rest" by simp
      from re_finditer_sound[OF this kne] show "pos + ?n \<le> fst x" by simp
    qed
    moreover have "sorted_wrt (\<lambda>a b. fst a + ?n \<le> fst b) ?rest"
      by (rule "1.IH"(2)[OF True kne kne])
    ultimately show ?thesis
      unfolding re_finditer_match[OF True kne] by simp
  next
    case False
    show ?thesis
    proof (cases t)
      case Nil
      with kne show ?thesis by (simp add: re_finditer_end)
    next
      case (Cons c cs)
      from "1.IH"(3)[OF False Cons kne] False Cons
      show ?thesis by (simp add: re_finditer_skip)
    qed
  qed
qed

lemma re_finditer_covers:
  "re_occurs_at isw ci kw prev t j \<Longrightarrow> kw \<noteq> [] \<Longrightarrow>
   \<exists>(i, m) \<in> set (re_finditer isw ci kw pos prev t). i \<le> pos + j \<and> pos + j < i + length kw"
proof (induction isw ci kw pos prev t arbitrary: j rule: re_finditer.induct)
  case (1 isw ci kw pos prev t)
  let ?n = "length kw"
  have kne: "kw \<noteq> []" by (rule "1.prems"(2))
  have n0: "0 < ?n" using kne by simp
  show ?case
  proof (cases "re_match_at isw ci kw prev t")
    case True
    note e = re_finditer_match[OF True kne, of pos]
    show ?thesis
    proof (cases "j < ?n")
      case True
      then show ?thesis unfolding e by simp
    next
      case False
      from True have len: "?n \<le> length t" by (simp add: re_match_at_iff re_literal_iff)
      have "re_occurs_at isw ci kw prev t (?n + (j - ?n))"
        using "1.prems"(1) False by simp
      then have "re_occurs_at isw ci kw (Some (last (take ?n t))) (drop ?n t) (j - ?n)"
        unfolding re_occurs_at_drop[OF len n0] .
      from "1.IH"(2)[OF True kne this kne]
      obtain i m where im:
        "(i, m) \<in> set (re_finditer isw ci kw (pos + ?n) (Some (last (take ?n t))) (drop ?n t))"
        "i \<le> pos + ?n + (j - ?n)" "pos + ?n + (j - ?n) < i + ?n" by auto
      then have "(i, m) \<in> set (re_finditer isw ci kw pos prev t)" "i \<le> pos + j" "pos + j < i + ?n"
        using False unfolding e by auto
      then show ?thesis by blast
    qed
  next
    case False
    have j0: "j \<noteq> 0"
    proof
      assume "j = 0"
      with "1.prems"(1) have "re_match_at isw ci kw prev t" by (simp add: re_match_at_occurs)
      with False show False by simp
    qed
    have "j + ?n \<le> length t" using "1.prems"(1) by (simp add: re_occurs_at_def)
    with j0 obtain c cs where Cons: "t = c # cs" by (cases t) auto
    have e: "re_finditer isw ci kw pos prev t = re_finditer isw ci kw (Suc pos) (Some c) cs"
      using False unfolding Cons by (rule re_finditer_skip)
    have "re_occurs_at isw ci kw prev (c # cs) (Suc (j - 1))"
      using "1.prems"(1) j0 Cons by simp
    then have "re_occurs_at isw ci kw (Some c) cs (j - 1)"
      unfolding re_occurs_at_Cons .
    from "1.IH"(3)[OF False Cons this kne]
    show ?thesis unfolding e using j0 by auto
  qed
qed

lemma re_occurs_at_whole_word:
  assumes "kw \<noteq> []" and "\<forall>c. ci (hd kw) c \<longrightarrow> isw c" and "\<forall>c. ci (last kw) c \<longrightarrow> isw c"
  shows "re_occurs_at isw ci kw None t i = re_whole_word_at isw ci kw t i"
proof (cases "i + length kw \<le> length t \<and> list_all2 ci kw (take (length kw) (drop i t))")
  case False
  then show ?thesis by (auto simp: re_occurs_at_def re_whole_word_at_def)
next
  case True
  let ?n = "length kw"
  let ?m = "take ?n (drop i t)"
  have n0: "0 < ?n" using assms(1) by simp
  have "?n \<le> length t - i" using True by arith
  then have lm: "length ?m = ?n" by simp
  have mne: "?m \<noteq> []" using lm n0 by auto
  have la: "list_all2 ci kw ?m" using True by simp
  have "ci (kw ! 0) (?m ! 0)" using la n0 by (rule list_all2_nthD)
  then have "ci (hd kw) (hd ?m)" using assms(1) mne by (simp add: hd_conv_nth)
  then have hw: "isw (hd ?m)" using assms(2) by blast
  have "ci (kw ! (?n - 1)) (?m ! (?n - 1))" by (rule list_all2_nthD[OF la]) (use n0 in simp)
  then have "ci (last kw) (last ?m)" using assms(1) mne lm by (simp add: last_conv_nth)
  then have lw: "isw (last ?m)" using assms(3) by blast
  have il: "i < length t" and inl: "i + ?n \<le> length t" and il': "i \<le> length t"
    using True n0 by arith+
  have hd_eq: "hd ?m = t ! i"
    using n0 il by (simp add: hd_drop_conv_nth)
  have "last ?m = ?m ! (?n - 1)" using mne lm by (simp add: last_conv_nth)
  also have "\<dots> = t ! (i + (?n - 1))" using n0 inl by simp
  finally have last_eq: "last ?m = t ! (i + ?n - 1)" using n0 by simp
  have a: "re_head_opt (drop i t) = Some (t ! i)"
    unfolding re_head_opt_def Cons_nth_drop_Suc[OF il, symmetric] by simp
  have b: "re_last_opt None (take i t) = (if i = 0 then None else Some (t ! (i - 1)))"
  proof (cases "i = 0")
    case True
    then show ?thesis by (simp add: re_last_opt_def)
  next
    case False
    then have "take i t \<noteq> []" using il by auto
    moreover have "last (take i t) = t ! (i - 1)"
      using False il' \<open>take i t \<noteq> []\<close> by (simp add: last_conv_nth)
    ultimately show ?thesis using False by (simp add: re_last_opt_def)
  qed
  have tne: "take (i + ?n) t \<noteq> []" using n0 il by auto
  have "last (take (i + ?n) t) = t ! (i + ?n - 1)"
    using tne inl n0 by (simp add: last_conv_nth)
  then have c: "re_last_opt None (take (i + ?n) t) = Some (t ! (i + ?n - 1))"
    using tne by (simp add: re_last_opt_def)
  have d: "re_head_opt (drop (i + ?n) t) = (if i + ?n = length t then None else Some (t ! (i + ?n)))"
  proof (cases "i + ?n = length t")
    case True
    then show ?thesis by (simp add: re_head_opt_def)
  next
    case False
    then have "i + ?n < length t" using inl by arith
    from False show ?thesis
      unfolding re_head_opt_def Cons_nth_drop_Suc[OF \<open>i + ?n < length t\<close>, symmetric] by simp
  qed
  show ?thesis
    unfolding re_occurs_at_def re_whole_word_at_def a b c d re_word_boundary_def
    using True hw lw hd_eq last_eq by (auto simp: re_is_word_opt_def)
qed

lemma re_count_length: "re_count isw ci kw t = length (re_finditer isw ci kw 0 None t)"
  by (simp add: re_count_def re_findall_def)

lemma re_matches_whole_words:
  assumes "kw \<noteq> []" and "\<forall>c. ci (hd kw) c \<longrightarrow> isw c" and "\<forall>c. ci (last kw) c \<longrightarrow> isw c"
    and "(i, m) \<in> set (re_finditer isw ci kw 0 None t)"
  shows "re_whole_word_at isw ci kw t i \<and> m = take (length kw) (drop i t)"
  using re_finditer_sound[OF assms(4) assms(1)] re_occurs_at_whole_word[OF assms(1-3)]
  by simp

lemma re_whole_words_covered:
  assumes "kw \<noteq> []" and "\<forall>c. ci (hd kw) c \<longrightarrow> isw c" and "\<forall>c. ci (last kw) c \<longrightarrow> isw c"
    and "re_whole_word_at isw ci kw t j"
  shows "\<exists>(i, m) \<in> set (re_finditer isw ci kw 0 None t). i \<le> j \<and> j < i + length kw"
proof -
  have "re_occurs_at isw ci kw None t j"
    using assms(4) re_occurs_at_whole_word[OF assms(1-3)] by simp
  from re_finditer_covers[OF this assms(1), of 0] show ?thesis by simp
qed

lemma re_count_card:
  assumes "kw \<noteq> []" and "\<forall>c. ci (hd kw) c \<longrightarrow> isw c" and "\<forall>c. ci (last kw) c \<longrightarrow> isw c"
    and noov: "\<forall>i j. re_whole_word_at isw ci kw t i \<and> re_whole_word_at isw ci kw t j \<and> i < j
                 \<longrightarrow> i + length kw \<le> j"
  shows "re_count isw ci kw t = card {j. re_whole_word_at isw ci kw t j}"
proof -
  let ?ms = "re_finditer isw ci kw 0 None t"
  let ?M = "map fst ?ms"
  let ?n = "length kw"
  have n0: "0 < ?n" using assms(1) by simp
  have "sorted_wrt (\<lambda>a b. fst a + ?n \<le> fst b) ?ms"
    using assms(1) by (rule re_finditer_increasing)
  then have "sorted_wrt (\<lambda>a b. a + ?n \<le> b) ?M"
    by (simp add: sorted_wrt_map)
  then have "sorted_wrt (<) ?M"
    by (rule sorted_wrt_mono_rel[rotated]) (use n0 in linarith)
  then have dist: "distinct ?M"
    by (simp add: strict_sorted_iff)
  have "set ?M = {j. re_whole_word_at isw ci kw t j}"
  proof (intro equalityI subsetI)
    fix i
    assume "i \<in> set ?M"
    then obtain m where "(i, m) \<in> set ?ms" by auto
    from re_matches_whole_words[OF assms(1-3) this]
    show "i \<in> {j. re_whole_word_at isw ci kw t j}" by simp
  next
    fix j
    assume "j \<in> {j. re_whole_word_at isw ci kw t j}"
    then have wj: "re_whole_word_at isw ci kw t j" by simp
    from re_whole_words_covered[OF assms(1-3) wj]
    obtain i m where im: "(i, m) \<in> set ?ms" "i \<le> j" "j < i + ?n" by auto
    from re_matches_whole_words[OF assms(1-3) im(1)]
    have wi: "re_whole_word_at isw ci kw t i" by simp
    have "i = j"
    proof (rule ccontr)
      assume "i \<noteq> j"
      with im(2) have "i < j" by simp
      with noov wi wj have "i + ?n \<le> j" by blast
      with im(3) show False by simp
    qed
    with im(1) show "j \<in> set ?M" by force
  qed
  then have "card {j. re_whole_word_at isw ci kw t j} = card (set ?M)" by simp
  also have "\<dots> = length ?M" using dist by (rule distinct_card)
  finally show ?thesis by (simp add: re_count_length)
qed

lemma re_whole_word_no_overlap:
  assumes "\<forall>k \<in> set kw. \<forall>c. ci k c \<longrightarrow> isw c"
    and "re_whole_word_at isw ci kw t i" and "re_whole_word_at isw ci kw t j" and "i < j"
  shows "i + length kw \<le> j"
proof (rule ccontr)
  assume "\<not> i + length kw \<le> j"
  then have lt: "j < i + length kw" by simp
  let ?n = "length kw"
  let ?d = "j - 1 - i"
  have d: "?d < ?n" using lt assms(4) by arith
  have inl: "i + ?n \<le> length t" and la: "list_all2 ci kw (take ?n (drop i t))"
    using assms(2) by (simp_all add: re_whole_word_at_def)
  have "ci (kw ! ?d) (take ?n (drop i t) ! ?d)" using la d by (rule list_all2_nthD)
  moreover have "take ?n (drop i t) ! ?d = t ! (j - 1)"
    using d inl assms(4) by simp
  moreover have "kw ! ?d \<in> set kw" using d by simp
  ultimately have "isw (t ! (j - 1))" using assms(1) by auto
  moreover have "\<not> isw (t ! (j - 1))"
    using assms(3) assms(4) by (auto simp: re_whole_word_at_def)
  ultimately show False by simp
qed

section \<open>The code points below 256 as an instance\<close>

lemma re_literal_latin1: "re_literal ci_latin1 kw t = ci_prefix kw t"
  by (induction kw t rule: ci_prefix.induct) (simp_all add: ci_latin1_def)

lemma re_match_at_latin1: "re_match_at is_word_char ci_latin1 kw prev t = kw_match_at kw prev t"
  by (simp add: re_match_at_def kw_match_at_def re_literal_latin1 re_word_boundary_def
      word_boundary_def re_is_word_opt_def is_word_opt_def re_head_opt_def head_opt_def
      re_last_opt_def last_opt_def)

lemma re_finditer_latin1:
  "re_finditer is_word_char ci_latin1 kw pos prev t = finditer_kw kw pos prev t"
proof (induction kw pos prev t rule: finditer_kw.induct)
  case (1 kw pos prev t)
  show ?case
    unfolding re_finditer.simps[of is_word_char ci_latin1 kw pos prev t]
      finditer_kw.simps[of kw pos prev t] re_match_at_latin1
    using 1 by (auto split: list.splits)
qed

lemma count_kw_re_count: "count_kw kw t = re_count is_word_char ci_latin1 kw t"
  by (simp add: count_kw_def findall_kw_def re_count_def re_findall_def re_finditer_latin1)

lemma list_all2_ci_latin1: "list_all2 ci_latin1 u v = (lower v = lower u)"
proof -
  have "list_all2 ci_latin1 u v = list_all2 (=) (map lower_char u) (map lower_char v)"
    by (simp add: list_all2_map1 list_all2_map2 ci_latin1_def[abs_def])
  also have "\<dots> = (map lower_char u = map lower_char v)"
    by (simp add: list.rel_eq)
  finally show ?thesis by (auto simp: lower_def)
qed

lemma whole_word_at_latin1:
  "whole_word_at kw t i = re_whole_word_at is_word_char ci_latin1 kw t i"
  by (simp add: whole_word_at_def re_whole_word_at_def list_all2_ci_latin1)

lemma ci_latin1_word: "ci_latin1 k c \<Longrightarrow> is_word_char k \<Longrightarrow> is_word_char c"
  unfolding ci_latin1_def using lower_char_eq_word by blast

lemma latin1_no_overlap:
  assumes "\<not> self_overlapping kw"
    and "whole_word_at kw t i" and "whole_word_at kw t j" and "i < j"
  shows "i + length kw \<le> j"
proof (rule ccontr)
  assume "\<not> i + length kw \<le> j"
  then have lt: "j < i + length kw" by simp
  let ?n = "length kw"
  let ?d = "j - i"
  have d0: "0 < ?d" and dn: "?d < ?n" using lt assms(4) by arith+
  have inl: "i + ?n \<le> length t" and li: "lower (take ?n (drop i t)) = lower kw"
    using assms(2) by (simp_all add: whole_word_at_def)
  have jnl: "j + ?n \<le> length t" and lj: "lower (take ?n (drop j t)) = lower kw"
    and nw: "\<not> is_word_char (t ! (j - 1))"
    using assms(3) assms(4) by (auto simp: whole_word_at_def)
  have "lower (take ?n (drop i t)) ! (?d - 1) = lower kw ! (?d - 1)" using li by simp
  then have "lower_char (t ! (j - 1)) = lower_char (kw ! (?d - 1))"
    using dn d0 inl assms(4) by (simp add: lower_def)
  then have "is_word_char (t ! (j - 1)) = is_word_char (kw ! (?d - 1))"
    by (rule lower_char_eq_word)
  with nw have a: "\<not> is_word_char (kw ! (?d - 1))" by simp
  have "drop ?d (lower kw) = drop ?d (lower (take ?n (drop i t)))" using li by simp
  also have "\<dots> = lower (take (?n - ?d) (drop j t))"
    using assms(4) by (simp add: lower_def drop_map drop_take add.commute)
  finally have s1: "lower (drop ?d kw) = lower (take (?n - ?d) (drop j t))"
    by (simp add: lower_drop)
  have "take (?n - ?d) (lower kw) = take (?n - ?d) (lower (take ?n (drop j t)))" using lj by simp
  also have "\<dots> = lower (take (?n - ?d) (drop j t))"
    by (simp add: lower_def take_map min_def)
  finally have s2: "lower (take (?n - ?d) kw) = lower (take (?n - ?d) (drop j t))"
    by (simp add: lower_take)
  have "?d \<in> set [1..<?n]" using d0 dn by simp
  with a s1 s2 have "self_overlapping kw"
    unfolding self_overlapping_def by (intro bexI[of _ ?d]) simp_all
  with assms(1) show False by simp
qed

lemma count_kw_card:
  assumes "kw \<noteq> []" and "is_word_char (hd kw)" and "is_word_char (last kw)"
    and "\<not> self_overlapping kw"
  shows "count_kw kw t = card {j. whole_word_at kw t j}"
proof -
  have h1: "\<forall>c. ci_latin1 (hd kw) c \<longrightarrow> is_word_char c"
    using assms(2) ci_latin1_word by blast
  have h2: "\<forall>c. ci_latin1 (last kw) c \<longrightarrow> is_word_char c"
    using assms(3) ci_latin1_word by blast
  have "\<forall>i j. re_whole_word_at is_word_char ci_latin1 kw t i \<and>
               re_whole_word_at is_word_char ci_latin1 kw t j \<and> i < j \<longrightarrow> i + length kw \<le> j"
    using latin1_no_overlap[OF assms(4)] unfolding whole_word_at_latin1 by blast
  from re_count_card[OF assms(1) h1 h2 this] show ?thesis
    by (simp add: count_kw_re_count whole_word_at_latin1)
qed

lemma not_self_overlapping_word: "\<forall>c \<in> set kw. is_word_char c \<Longrightarrow> \<not> self_overlapping kw"
proof
  assume w: "\<forall>c \<in> set kw. is_word_char c" and "self_overlapping kw"
  then obtain d where "d \<in> set [1..<length kw]" and n: "\<not> is_word_char (kw ! (d - 1))"
    unfolding self_overlapping_def by blast
  then have "d - 1 < length kw" by auto
  then have "kw ! (d - 1) \<in> set kw" by (rule nth_mem)
  with w n show False by blast
qed

lemma fitness_keywords_not_self_overlapping:
  "\<forall>k \<in> set FITNESS_KEYWORDS. \<not> self_overlapping k"
  apply (simp add: FITNESS_KEYWORDS_def not_self_overlapping_word is_word_char_ascii)
  apply (simp add: self_overlapping_def lower_def is_word_char_ascii lower_char_ascii)
  done

lemma squat_examples:
  "count_kw ''squat'' ''squatting'' = 0" "count_kw ''squat'' ''Squat'' = 1"
  "count_kw ''squat'' ''I Squat daily'' = 1" "count_kw ''squat'' ''squat squat squat'' = 3"
  by code_simp+

lemma fitness_keywords_latin1:
  "\<forall>k \<in> set FITNESS_KEYWORDS.
     k \<noteq> [] \<and> (\<forall>c. ci_latin1 (hd k) c \<longrightarrow> is_word_char c) \<and>
     (\<forall>c. ci_latin1 (last k) c \<longrightarrow> is_word_char c) \<and>
     (\<forall>s. count_kw k s = card {j. whole_word_at k s j})"
proof
  fix k
  assume k: "k \<in> set FITNESS_KEYWORDS"
  with fitness_keywords_wordlike
  have w: "k \<noteq> []" "is_word_char (hd k)" "is_word_char (last k)" by blast+
  from k fitness_keywords_not_self_overlapping have n: "\<not> self_overlapping k" by blast
  have "\<forall>c. ci_latin1 (hd k) c \<longrightarrow> is_word_char c" using w(2) ci_latin1_word by blast
  moreover have "\<forall>c. ci_latin1 (last k) c \<longrightarrow> is_word_char c" using w(3) ci_latin1_word by blast
  moreover have "\<forall>s. count_kw k s = card {j. whole_word_at k s j}"
    using count_kw_card[OF w n] by blast
  ultimately show "k \<noteq> [] \<and> (\<forall>c. ci_latin1 (hd k) c \<longrightarrow> is_word_char c) \<and>
     (\<forall>c. ci_latin1 (last k) c \<longrightarrow> is_word_char c) \<and>
     (\<forall>s. count_kw k s = card {j. whole_word_at k s j})"
    using w(1) by blast
qed

text \<open>
  Claim C1. Keyword matching is delimited by word boundaries and ignores case, for every
  text. The statement is about the pattern over any alphabet, so that it covers every
  Python string: \<open>isw\<close> is the class \<open>\w\<close> and \<open>ci\<close> the characters that a character of
  the keyword matches when case is ignored. For a keyword whose first and last character
  match only word characters (every keyword of the vocabulary does: it begins and ends with
  a letter):
  \<^item> the number that the Scorer adds is the number of matches of the scan;
  \<^item> every match is a whole-word occurrence of the keyword up to case, the matched string
    being the text at that place, so a copy embedded in a longer word is not counted;
  \<^item> the matches do not share characters and come in increasing order;
  \<^item> every whole-word occurrence up to case shares characters with a match, so it is
    counted;
  \<^item> when no two whole-word occurrences share characters, in particular when no character
    of the keyword can match a non-word character, the count is exactly the number of
    whole-word occurrences.

  On the code points below 256 the scan and the occurrences are those of the Scorer's model,
  and for every keyword of the vocabulary and every text the count is exactly the number of
  whole-word occurrences up to case. In particular \<open>squatting\<close> gives no match for
  \<open>squat\<close>, \<open>Squat\<close> gives one, \<open>I Squat daily\<close> gives one, and
  \<open>squat squat squat\<close> gives three.
\<close>

theorem keyword_matching_whole_word_ignoring_case:
  assumes "kw \<noteq> []" and "\<forall>c. ci (hd kw) c \<longrightarrow> isw c" and "\<forall>c. ci (last kw) c \<longrightarrow> isw c"
  shows "re_count isw ci kw t = length (re_finditer isw ci kw 0 None t)
       \<and> (\<forall>(i, m) \<in> set (re_finditer isw ci kw 0 None t).
            re_whole_word_at isw ci kw t i \<and> m = take (length kw) (drop i t))
       \<and> sorted_wrt (\<lambda>a b. fst a + length kw \<le> fst b) (re_finditer isw ci kw 0 None t)
       \<and> (\<forall>j. re_whole_word_at isw ci kw t j \<longrightarrow>
            (\<exists>(i, m) \<in> set (re_finditer isw ci kw 0 None t). i \<le> j \<and> j < i + length kw))
       \<and> ((\<forall>i j. re_whole_word_at isw ci kw t i \<and> re_whole_word_at isw ci kw t j \<and> i < j
               \<longrightarrow> i + length kw \<le> j) \<longrightarrow>
            re_count isw ci kw t = card {j. re_whole_word_at isw ci kw t j})
       \<and> ((\<forall>k \<in> set kw. \<forall>c. ci k c \<longrightarrow> isw c) \<longrightarrow>
            re_count isw ci kw t = card {j. re_whole_word_at isw ci kw t j})
       \<and> (\<forall>k s. count_kw k s = re_count is_word_char ci_latin1 k s)
       \<and> (\<forall>k s. finditer_kw k 0 None s = re_finditer is_word_char ci_latin1 k 0 None s)
       \<and> (\<forall>k s i. whole_word_at k s i = re_whole_word_at is_word_char ci_latin1 k s i)
       \<and> (\<forall>k \<in> set FITNESS_KEYWORDS.
            k \<noteq> [] \<and> (\<forall>c. ci_latin1 (hd k) c \<longrightarrow> is_word_char c) \<and>
            (\<forall>c. ci_latin1 (last k) c \<longrightarrow> is_word_char c) \<and>
            (\<forall>s. count_kw k s = card {j. whole_word_at k s j}))
       \<and> count_kw ''squat'' ''squatting'' = 0
       \<and> count_kw ''squat'' ''Squat'' = 1
       \<and> count_kw ''squat'' ''I Squat daily'' = 1
       \<and> count_kw ''squat'' ''squat squat squat'' = 3"
proof -
  have a: "re_count isw ci kw t = length (re_finditer isw ci kw 0 None t)"
    by (rule re_count_length)
  have b: "\<forall>(i, m) \<in> set (re_finditer isw ci kw 0 None t).
            re_whole_word_at isw ci kw t i \<and> m = take (length kw) (drop i t)"
    using re_matches_whole_words[OF assms] by blast
  have c: "sorted_wrt (\<lambda>a b. fst a + length kw \<le> fst b) (re_finditer isw ci kw 0 None t)"
    using assms(1) by (rule re_finditer_increasing)
  have d: "\<forall>j. re_whole_word_at isw ci kw t j \<longrightarrow>
            (\<exists>(i, m) \<in> set (re_finditer isw ci kw 0 None t). i \<le> j \<and> j < i + length kw)"
    using re_whole_words_covered[OF assms] by blast
  have e: "(\<forall>i j. re_whole_word_at isw ci kw t i \<and> re_whole_word_at isw ci kw t j \<and> i < j
               \<longrightarrow> i + length kw \<le> j) \<longrightarrow>
            re_count isw ci kw t = card {j. re_whole_word_at isw ci kw t j}"
    using re_count_card[OF assms] by blast
  have f: "(\<forall>k \<in> set kw. \<forall>c. ci k c \<longrightarrow> isw c) \<longrightarrow>
            re_count isw ci kw t = card {j. re_whole_word_at isw ci kw t j}"
  proof
    assume w: "\<forall>k \<in> set kw. \<forall>c. ci k c \<longrightarrow> isw c"
    have "\<forall>i j. re_whole_word_at isw ci kw t i \<and> re_whole_word_at isw ci kw t j \<and> i < j
               \<longrightarrow> i + length kw \<le> j"
      using re_whole_word_no_overlap[OF w] by blast
    then show "re_count isw ci kw t = card {j. re_whole_word_at isw ci kw t j}"
      by (rule re_count_card[OF assms])
  qed
  have g: "\<forall>k s. count_kw k s = re_count is_word_char ci_latin1 k s"
    using count_kw_re_count by blast
  have h: "\<forall>k s. finditer_kw k 0 None s = re_finditer is_word_char ci_latin1 k 0 None s"
    by (simp add: re_finditer_latin1)
  have i: "\<forall>k s i. whole_word_at k s i = re_whole_word_at is_word_char ci_latin1 k s i"
    using whole_word_at_latin1 by blast
  from a b c d e f g h i fitness_keywords_latin1 squat_examples show ?thesis
    by (intro conjI)
qed

theorem keyword_matching_whole_word_ignoring_case_witness:
  "''squat'' \<noteq> []
   \<and> re_whole_word_at is_word_char ci_latin1 ''squat'' ''I Squat daily'' 2
   \<and> re_count is_word_char ci_latin1 ''squat'' ''I Squat daily'' =
       card {j. re_whole_word_at is_word_char ci_latin1 ''squat'' ''I Squat daily'' j}
   \<and> card {j. re_whole_word_at is_word_char ci_latin1 ''squat'' ''I Squat daily'' j} = 1
   \<and> ''squat'' \<in> set FITNESS_KEYWORDS
   \<and> count_kw ''squat'' ''squat squat squat'' =
       card {j. whole_word_at ''squat'' ''squat squat squat'' j}"
proof -
  have w: "\<forall>k \<in> set ''squat''. is_word_char k"
    by (simp add: is_word_char_ascii)
  have h1: "''squat'' \<noteq> []" by simp
  have h2: "\<forall>c. ci_latin1 (hd ''squat'') c \<longrightarrow> is_word_char c"
    using w ci_latin1_word by (metis list.sel(1) list.set_intros(1))
  have h3: "\<forall>c. ci_latin1 (last ''squat'') c \<longrightarrow> is_word_char c"
    using w ci_latin1_word by (metis h1 last_in_set)
  have h4: "\<forall>k \<in> set ''squat''. \<forall>c. ci_latin1 k c \<longrightarrow> is_word_char c"
    using w ci_latin1_word by blast
  note inst = keyword_matching_whole_word_ignoring_case[OF h1 h2 h3, of "''I Squat daily''"]
  have ww: "re_whole_word_at is_word_char ci_latin1 ''squat'' ''I Squat daily'' 2"
    by (simp add: re_whole_word_at_def ci_latin1_def is_word_char_ascii lower_char_ascii)
  have "(\<forall>k \<in> set ''squat''. \<forall>c. ci_latin1 k c \<longrightarrow> is_word_char c) \<longrightarrow>
            re_count is_word_char ci_latin1 ''squat'' ''I Squat daily'' =
            card {j. re_whole_word_at is_word_char ci_latin1 ''squat'' ''I Squat daily'' j}"
    using inst by (elim conjE)
  with h4 have cnt: "re_count is_word_char ci_latin1 ''squat'' ''I Squat daily'' =
            card {j. re_whole_word_at is_word_char ci_latin1 ''squat'' ''I Squat daily'' j}"
    by (rule rev_mp)
  have "count_kw ''squat'' ''I Squat daily'' = 1" by (rule squat_examples(3))
  with cnt have one: "card {j. re_whole_word_at is_word_char ci_latin1 ''squat'' ''I Squat daily'' j} = 1"
    by (simp add: count_kw_re_count)
  have mem: "''squat'' \<in> set FITNESS_KEYWORDS"
    by (simp add: FITNESS_KEYWORDS_def)
  have "\<forall>k \<in> set FITNESS_KEYWORDS.
            k \<noteq> [] \<and> (\<forall>c. ci_latin1 (hd k) c \<longrightarrow> is_word_char c) \<and>
            (\<forall>c. ci_latin1 (last k) c \<longrightarrow> is_word_char c) \<and>
            (\<forall>s. count_kw k s = card {j. whole_word_at k s j})"
    using inst by (elim conjE)
  with mem have voc: "count_kw ''squat'' ''squat squat squat'' =
       card {j. whole_word_at ''squat'' ''squat squat squat'' j}"
    by blast
  from h1 ww cnt one mem voc show ?thesis by (intro conjI)
qed

section \<open>Properties of the Enumerator\<close>

lemma split_first_None: "(split_first sep s = None) = (sep \<notin> set s)"
  by (induction s) (auto split: option.splits)

lemma split_first_Some:
  "sep \<in> set s \<Longrightarrow>
   split_first sep s = Some (takeWhile (\<lambda>c. c \<noteq> sep) s, drop 1 (dropWhile (\<lambda>c. c \<noteq> sep) s))"
  by (induction s) (auto split: option.splits simp: split_first_None)

lemma parse_line_record:
  "parse_line line videos =
     videos @ (if CHR ''|'' \<in> set line then [line_record line] else [])"
  by (simp add: parse_line_def line_record_def split_first_Some Let_def)

lemma fold_parse_line:
  "fold parse_line ls videos =
     videos @ map line_record (filter (\<lambda>l. CHR ''|'' \<in> set l) ls)"
  by (induction ls arbitrary: videos) (simp_all add: parse_line_record)

lemma parse_stdout_records:
  "parse_stdout out =
     map line_record (filter (\<lambda>l. CHR ''|'' \<in> set l) (split_on (CHR 0x0A) (strip out)))"
  by (simp add: parse_stdout_def fold_parse_line)

lemma parse_stdout_urls: "\<forall>v \<in> set (parse_stdout out). v_url v = watch_url (v_video_id v)"
  by (auto simp: parse_stdout_records line_record_def Let_def)

lemma line_record_parts:
  assumes "CHR ''|'' \<in> set line"
  shows "\<exists>a b. line = a @ CHR ''|'' # b \<and> CHR ''|'' \<notin> set a \<and>
           v_video_id (line_record line) = strip a \<and> v_title (line_record line) = strip b"
proof -
  let ?a = "takeWhile (\<lambda>c. c \<noteq> CHR ''|'') line"
  let ?r = "dropWhile (\<lambda>c. c \<noteq> CHR ''|'') line"
  from assms have "?r \<noteq> []" by (simp add: dropWhile_eq_Nil_conv)
  moreover have "hd ?r = CHR ''|''"
    using hd_dropWhile[of "\<lambda>c. c \<noteq> CHR ''|''" line] \<open>?r \<noteq> []\<close> by auto
  ultimately have r: "?r = CHR ''|'' # drop 1 ?r" by (cases ?r) auto
  have "line = ?a @ ?r" by simp
  with r have "line = ?a @ CHR ''|'' # drop 1 ?r" by metis
  moreover have "CHR ''|'' \<notin> set ?a" by (auto dest: set_takeWhileD)
  ultimately show ?thesis
    by (intro exI[of _ ?a] exI[of _ "drop 1 ?r"]) (simp add: line_record_def Let_def)
qed

lemma example_records:
  "parse_stdout example_stdout =
     [\<lparr> v_video_id = ''abc123'', v_title = ''My Title'',
        v_url = ''https://www.youtube.com/watch?v=abc123'' \<rparr>,
      \<lparr> v_video_id = ''def456'', v_title = ''Other'',
        v_url = ''https://www.youtube.com/watch?v=def456'' \<rparr>]"
  by code_simp

text \<open>
  Claim C5. When the listing tool exits with code 0 the Enumerator succeeds with the
  records of the lines of the trimmed standard output that hold a \<open>|\<close>, in order; a line
  without \<open>|\<close> is skipped. A record's identifier and title are the trimmed parts before
  and after the first \<open>|\<close> of its line, and its URL is
  \<open>https://www.youtube.com/watch?v=\<close> followed by the identifier. The standard output
  \<open>abc123|My Title\ndef456|Other\n\<close> gives exactly the two records of \<open>abc123\<close> and
  \<open>def456\<close>.
\<close>

theorem enumerator_parses_id_title_lines:
  "fetch_channel_videos (Completed 0 out err) = Returns (Videos (parse_stdout out))
   \<and> parse_stdout out =
       map line_record (filter (\<lambda>l. CHR ''|'' \<in> set l) (split_on (CHR 0x0A) (strip out)))
   \<and> (\<forall>line. CHR ''|'' \<in> set line \<longrightarrow>
         (\<exists>a b. line = a @ CHR ''|'' # b \<and> CHR ''|'' \<notin> set a \<and>
            v_video_id (line_record line) = strip a \<and> v_title (line_record line) = strip b))
   \<and> (\<forall>v \<in> set (parse_stdout out).
         v_url v = ''https://www.youtube.com/watch?v='' @ v_video_id v)
   \<and> parse_stdout example_stdout =
       [\<lparr> v_video_id = ''abc123'', v_title = ''My Title'',
          v_url = ''https://www.youtube.com/watch?v=abc123'' \<rparr>,
        \<lparr> v_video_id = ''def456'', v_title = ''Other'',
          v_url = ''https://www.youtube.com/watch?v=def456'' \<rparr>]"
proof -
  have a: "fetch_channel_videos (Completed 0 out err) = Returns (Videos (parse_stdout out))"
    by (simp add: fetch_channel_videos_def fetch_channel_videos_try_def)
  have c: "\<forall>line. CHR ''|'' \<in> set line \<longrightarrow>
         (\<exists>a b. line = a @ CHR ''|'' # b \<and> CHR ''|'' \<notin> set a \<and>
            v_video_id (line_record line) = strip a \<and> v_title (line_record line) = strip b)"
    using line_record_parts by blast
  have d: "\<forall>v \<in> set (parse_stdout out).
         v_url v = ''https://www.youtube.com/watch?v='' @ v_video_id v"
    using parse_stdout_urls[of out] by (simp add: watch_url_def)
  from a parse_stdout_records[of out] c d example_records show ?thesis
    by (intro conjI)
qed

theorem enumerator_parses_id_title_lines_witness:
  "fetch_channel_videos (Completed 0 example_stdout []) =
     Returns (Videos
       [\<lparr> v_video_id = ''abc123'', v_title = ''My Title'',
          v_url = ''https://www.youtube.com/watch?v=abc123'' \<rparr>,
        \<lparr> v_video_id = ''def456'', v_title = ''Other'',
          v_url = ''https://www.youtube.com/watch?v=def456'' \<rparr>])"
proof -
  note T = enumerator_parses_id_title_lines[of example_stdout "[]"]
  note first = T[THEN conjunct1]
  note last = T[THEN conjunct2, THEN conjunct2, THEN conjunct2, THEN conjunct2]
  show ?thesis by (simp only: first last)
qed

text \<open>
  Claim C6. A non-zero exit code of the listing process makes the Enumerator return a
  failure whose error is the diagnostic output of the process, unchanged; an elapsed wait
  (\<open>TimeoutExpired\<close>) makes it return the failure \<open>Timeout\<close>. In both cases, and whenever
  the call raises an exception that derives from \<open>Exception\<close>, the Enumerator returns a
  value: an exception leaves it only when the call itself raised one that does not
  derive from \<open>Exception\<close>.
\<close>

theorem enumerator_failures_are_returned:
  "(returncode \<noteq> 0 \<longrightarrow>
      fetch_channel_videos (Completed returncode out err) = Returns (Failed (Msg err)))
   \<and> fetch_channel_videos (ProcRaised TimeoutExpired) = Returns (Failed (Msg ''Timeout''))
   \<and> (is_Exception e \<longrightarrow> (\<exists>r. fetch_channel_videos (ProcRaised e) = Returns (Failed r)))
   \<and> (\<forall>x. fetch_channel_videos p = Raises x \<longrightarrow> p = ProcRaised x \<and> \<not> is_Exception x)"
proof -
  have a: "returncode \<noteq> 0 \<longrightarrow>
      fetch_channel_videos (Completed returncode out err) = Returns (Failed (Msg err))"
    by (simp add: fetch_channel_videos_def fetch_channel_videos_try_def)
  have b: "fetch_channel_videos (ProcRaised TimeoutExpired) = Returns (Failed (Msg ''Timeout''))"
    by (simp add: fetch_channel_videos_def fetch_channel_videos_try_def)
  have c: "is_Exception e \<longrightarrow> (\<exists>r. fetch_channel_videos (ProcRaised e) = Returns (Failed r))"
    by (simp add: fetch_channel_videos_def fetch_channel_videos_try_def)
  have d: "\<forall>x. fetch_channel_videos p = Raises x \<longrightarrow> p = ProcRaised x \<and> \<not> is_Exception x"
    by (cases p) (auto simp: fetch_channel_videos_def fetch_channel_videos_try_def
        split: if_splits)
  from a b c d show ?thesis by (intro conjI)
qed

theorem enumerator_failures_are_returned_witness:
  "(1 :: int) \<noteq> 0 \<and> is_Exception OSError
   \<and> fetch_channel_videos (Completed 1 ''partial'' ''ERROR: channel not found'') =
       Returns (Failed (Msg ''ERROR: channel not found''))
   \<and> (\<exists>r. fetch_channel_videos (ProcRaised OSError) = Returns (Failed r))"
proof -
  have h1: "(1 :: int) \<noteq> 0" by simp
  have h2: "is_Exception OSError" by (simp add: is_Exception_def)
  note T = enumerator_failures_are_returned[of 1 "''partial''" "''ERROR: channel not found''"
      OSError "ProcRaised OSError"]
  note a = T[THEN conjunct1, THEN mp, OF h1]
  note c = T[THEN conjunct2, THEN conjunct2, THEN conjunct1, THEN mp, OF h2]
  from h1 h2 a c show ?thesis by (intro conjI)
qed

section \<open>Properties of the URL Extractor\<close>

lemma set_first_occurrences: "set (first_occurrences xs) = set xs"
  by (induction xs rule: first_occurrences.induct) auto

lemma distinct_first_occurrences: "distinct (first_occurrences xs)"
  by (induction xs rule: first_occurrences.induct) (auto simp: set_first_occurrences)

lemma first_occurrences_filter:
  "first_occurrences (filter P xs) = filter P (first_occurrences xs)"
proof (induction xs rule: first_occurrences.induct)
  case 1
  then show ?case by simp
next
  case (2 x xs)
  have comm: "filter (\<lambda>y. y \<noteq> x) (filter P xs) = filter P (filter (\<lambda>y. y \<noteq> x) xs)"
    by (simp add: conj_commute)
  show ?case
  proof (cases "P x")
    case True
    then show ?thesis by (simp only: filter.simps first_occurrences.simps comm "2.IH" if_True)
  next
    case False
    then have "filter P (filter (\<lambda>y. y \<noteq> x) xs) = filter P xs"
      by (induction xs) auto
    with False "2.IH" show ?thesis by (simp only: filter.simps first_occurrences.simps if_False)
  qed
qed

lemma dedup_step_pair:
  "dedup_step f x (S, acc) = (if f x \<in> S then (S, acc) else (insert (f x) S, acc @ [f x]))"
  by (simp add: dedup_step_def Let_def)

lemma fold_dedup_step:
  "fold (dedup_step f) xs (S, acc) =
     (S \<union> set (map f xs), acc @ first_occurrences (filter (\<lambda>y. y \<notin> S) (map f xs)))"
proof (induction xs arbitrary: S acc)
  case Nil
  then show ?case by simp
next
  case (Cons x xs)
  show ?case
  proof (cases "f x \<in> S")
    case True
    then have "fold (dedup_step f) (x # xs) (S, acc) = fold (dedup_step f) xs (S, acc)"
      by (simp only: fold_simps dedup_step_pair if_True)
    with True show ?thesis by (simp add: Cons.IH insert_absorb)
  next
    case False
    have "filter (\<lambda>y. y \<noteq> f x) (filter (\<lambda>y. y \<notin> S) (map f xs)) =
          filter (\<lambda>y. y \<notin> insert (f x) S) (map f xs)"
      by (simp add: conj_commute)
    moreover from False
    have "fold (dedup_step f) (x # xs) (S, acc) =
          fold (dedup_step f) xs (insert (f x) S, acc @ [f x])"
      by (simp only: fold_simps dedup_step_pair if_False)
    ultimately show ?thesis using False by (simp add: Cons.IH)
  qed
qed

lemma dedup_first_occurrences: "dedup f xs = first_occurrences (map f xs)"
  by (simp add: dedup_def fold_dedup_step)

lemma distinct_dedup: "distinct (dedup f xs)"
  by (simp add: dedup_first_occurrences distinct_first_occurrences)

lemma finditer_pat_offsets:
  "sorted_wrt (<) (map fst (finditer_pat p pos s)) \<and>
   (\<forall>i \<in> fst ` set (finditer_pat p pos s). pos \<le> i)"
proof (induction p pos s rule: finditer_pat.induct)
  case (1 p pos)
  then show ?case by simp
next
  case (2 p pos c cs)
  show ?case
  proof (cases "p (c # cs)")
    case None
    with 2(1)[OF None] show ?thesis by (auto simp: less_imp_le_nat Suc_le_eq)
  next
    case (Some n)
    show ?thesis
    proof (cases "0 < n")
      case True
      from 2(2)[OF Some True] Some True show ?thesis by fastforce
    next
      case False
      from 2(3)[OF Some False] Some False show ?thesis by (auto simp: Suc_le_eq less_imp_le_nat)
    qed
  qed
qed

lemma min_list_in: "xs \<noteq> [] \<Longrightarrow> min_list xs \<in> set xs"
proof (induction xs)
  case Nil
  then show ?case by simp
next
  case (Cons x xs)
  then show ?case by (cases xs) (auto simp: min_def)
qed

lemma first_offset_in:
  assumes "b \<in> snd ` set occs"
  shows "first_offset occs b \<in> fst ` set occs"
proof -
  let ?xs = "map fst (filter (\<lambda>p. snd p = b) occs)"
  from assms have "?xs \<noteq> []" by (auto simp: filter_empty_conv)
  then have "min_list ?xs \<in> set ?xs" by (rule min_list_in)
  then show ?thesis unfolding first_offset_def by auto
qed

lemma first_offset_bound:
  assumes "b \<in> snd ` set occs" and "\<forall>i \<in> fst ` set occs. p < i"
  shows "p < first_offset occs b"
  using first_offset_in[OF assms(1)] assms(2) by blast

lemma first_offset_Cons_same:
  assumes "\<forall>i \<in> fst ` set occs. p < i"
  shows "first_offset ((p, u) # occs) u = p"
proof (cases "u \<in> snd ` set occs")
  case False
  then have "filter (\<lambda>q. snd q = u) occs = []" by (auto simp: filter_empty_conv)
  then show ?thesis by (simp add: first_offset_def)
next
  case True
  let ?xs = "map fst (filter (\<lambda>q. snd q = u) occs)"
  from True have ne: "?xs \<noteq> []" by (auto simp: filter_empty_conv)
  have "p < first_offset occs u" using True assms by (rule first_offset_bound)
  then have "min p (min_list ?xs) = p" by (simp add: first_offset_def)
  moreover have "min_list (p # ?xs) = min p (min_list ?xs)"
    using ne by (cases ?xs) simp_all
  ultimately show ?thesis by (simp add: first_offset_def)
qed

lemma first_offset_Cons_other:
  "b \<noteq> u \<Longrightarrow> first_offset ((p, u) # occs) b = first_offset occs b"
  by (simp add: first_offset_def)

lemma first_occurrences_in_input_order:
  "sorted_wrt (<) (map fst occs) \<Longrightarrow>
   in_input_order occs (first_occurrences (map snd occs))"
proof (induction occs)
  case Nil
  then show ?case by (simp add: in_input_order_def)
next
  case (Cons pu occs)
  obtain p u where pu: "pu = (p, u)" by (cases pu)
  from Cons.prems have inc: "\<forall>i \<in> fst ` set occs. p < i" and srt: "sorted_wrt (<) (map fst occs)"
    by (auto simp: pu)
  let ?rest = "first_occurrences (filter (\<lambda>y. y \<noteq> u) (map snd occs))"
  have rest_eq: "?rest = filter (\<lambda>y. y \<noteq> u) (first_occurrences (map snd occs))"
    by (rule first_occurrences_filter)
  have ih: "sorted_wrt (\<lambda>a b. first_offset occs a < first_offset occs b)
              (first_occurrences (map snd occs))"
    using Cons.IH[OF srt] by (simp add: in_input_order_def)
  then have srt': "sorted_wrt (\<lambda>a b. first_offset occs a < first_offset occs b) ?rest"
    unfolding rest_eq by (rule sorted_wrt_filter)
  have neq: "\<forall>a \<in> set ?rest. a \<noteq> u"
    by (simp add: rest_eq)
  have tail: "sorted_wrt (\<lambda>a b. first_offset ((p, u) # occs) a < first_offset ((p, u) # occs) b) ?rest"
  proof (rule sorted_wrt_mono_rel[OF _ srt'])
    fix a b
    assume a: "a \<in> set ?rest" and b: "b \<in> set ?rest"
      and lt: "first_offset occs a < first_offset occs b"
    from a neq have "a \<noteq> u" by blast
    then have ea: "first_offset ((p, u) # occs) a = first_offset occs a"
      by (rule first_offset_Cons_other)
    from b neq have "b \<noteq> u" by blast
    then have eb: "first_offset ((p, u) # occs) b = first_offset occs b"
      by (rule first_offset_Cons_other)
    from lt show "first_offset ((p, u) # occs) a < first_offset ((p, u) # occs) b"
      by (simp only: ea eb)
  qed
  have head: "\<forall>b \<in> set ?rest. first_offset ((p, u) # occs) u < first_offset ((p, u) # occs) b"
  proof
    fix b
    assume b: "b \<in> set ?rest"
    then have bu: "b \<noteq> u" and bin: "b \<in> snd ` set occs"
      by (auto simp: rest_eq set_first_occurrences)
    have "first_offset ((p, u) # occs) u = p" using inc by (rule first_offset_Cons_same)
    moreover have "first_offset ((p, u) # occs) b = first_offset occs b"
      using bu by (rule first_offset_Cons_other)
    moreover have "p < first_offset occs b" using bin inc by (rule first_offset_bound)
    ultimately show "first_offset ((p, u) # occs) u < first_offset ((p, u) # occs) b" by simp
  qed
  from head tail show ?case
    by (simp add: in_input_order_def pu)
qed

lemma channel_occurrences_offsets:
  "sorted_wrt (<) (map fst (channel_occurrences content))"
proof -
  have "map fst (channel_occurrences content) = map fst (finditer_pat channel_pattern 0 content)"
    by (simp add: channel_occurrences_def case_prod_unfold comp_def)
  then show ?thesis using finditer_pat_offsets[of channel_pattern 0 content] by simp
qed

lemma extract_channel_urls_occurrences:
  "extract_channel_urls content = first_occurrences (map snd (channel_occurrences content))"
  by (simp add: extract_channel_urls_def dedup_first_occurrences findall_pat_def
      channel_occurrences_def case_prod_unfold comp_def)

lemma extract_channel_urls_in_input_order:
  "in_input_order (channel_occurrences content) (extract_channel_urls content)"
  unfolding extract_channel_urls_occurrences
  using channel_occurrences_offsets by (rule first_occurrences_in_input_order)

lemmas pattern_eval = watch_pattern_def shorts_pattern_def channel_pattern_def
  lit_def opt_lit_def class_plus_def startswith_def is_id_char_def is_handle_char_def
  is_word_char_ascii Let_def

lemma mixed_watch:
  "finditer_pat watch_pattern 0 mixed_bookmarks = [(31, ''https://youtube.com/watch?v=xyz'')]"
  by (simp add: mixed_bookmarks_def pattern_eval)

lemma mixed_shorts:
  "finditer_pat shorts_pattern 0 mixed_bookmarks = [(0, ''https://youtube.com/shorts/abc'')]"
  by (simp add: mixed_bookmarks_def pattern_eval)


lemma mixed_occurrences:
  "video_occurrences mixed_bookmarks =
     [(31, ''https://youtube.com/watch?v=xyz''), (0, ''https://youtube.com/shorts/abc'')]"
  by (simp add: video_occurrences_def mixed_watch mixed_shorts clean_url_def)

lemma mixed_extracted:
  "extract_youtube_videos mixed_bookmarks =
     [''https://youtube.com/watch?v=xyz'', ''https://youtube.com/shorts/abc'']"
  by (simp add: extract_youtube_videos_def dedup_first_occurrences video_urls_def
      findall_pat_def mixed_watch mixed_shorts clean_url_def)

text \<open>
  Claim C8, as stated, fails for the video extractor: it collects the matches of the
  watch pattern before those of the shorts pattern, so a watch URL is listed before a
  shorts URL that occurs earlier in the input.
\<close>

theorem video_extractor_not_in_input_order:
  "video_occurrences mixed_bookmarks =
     [(31, ''https://youtube.com/watch?v=xyz''), (0, ''https://youtube.com/shorts/abc'')]
   \<and> extract_youtube_videos mixed_bookmarks =
     [''https://youtube.com/watch?v=xyz'', ''https://youtube.com/shorts/abc'']
   \<and> \<not> in_input_order (video_occurrences mixed_bookmarks) (extract_youtube_videos mixed_bookmarks)"
proof -
  have "\<not> in_input_order (video_occurrences mixed_bookmarks) (extract_youtube_videos mixed_bookmarks)"
    unfolding mixed_occurrences mixed_extracted
    by (simp add: in_input_order_def first_offset_def)
  with mixed_occurrences mixed_extracted show ?thesis by (intro conjI)
qed

text \<open>
  Claim C8, amended. Both extractors return their URLs without duplicates, each
  normalised URL at the place of its first occurrence in the list of matches. For the
  channel extractor that list is in the order of the input, so its output is in the order
  of first occurrence in the input. For the video extractor the list holds the matches of
  the watch pattern, in the order of the input, followed by the matches of the shorts
  pattern, in the order of the input.
\<close>

theorem url_extractors_unique_in_match_order:
  "distinct (extract_youtube_videos content) \<and> distinct (extract_channel_urls content)
   \<and> extract_youtube_videos content =
       first_occurrences (map clean_url
         (findall_pat watch_pattern content @ findall_pat shorts_pattern content))
   \<and> extract_channel_urls content =
       first_occurrences (map rstrip_slash (findall_pat channel_pattern content))
   \<and> in_input_order (channel_occurrences content) (extract_channel_urls content)
   \<and> sorted_wrt (<) (map fst (finditer_pat watch_pattern 0 content))
   \<and> sorted_wrt (<) (map fst (finditer_pat shorts_pattern 0 content))
   \<and> sorted_wrt (<) (map fst (finditer_pat channel_pattern 0 content))"
proof -
  have a: "distinct (extract_youtube_videos content)" "distinct (extract_channel_urls content)"
    by (simp_all add: extract_youtube_videos_def extract_channel_urls_def distinct_dedup)
  have b: "extract_youtube_videos content =
       first_occurrences (map clean_url
         (findall_pat watch_pattern content @ findall_pat shorts_pattern content))"
    by (simp only: extract_youtube_videos_def video_urls_def dedup_first_occurrences)
  have c: "extract_channel_urls content =
       first_occurrences (map rstrip_slash (findall_pat channel_pattern content))"
    by (simp only: extract_channel_urls_def dedup_first_occurrences)
  note d = finditer_pat_offsets[THEN conjunct1]
  from a b c extract_channel_urls_in_input_order[of content]
    d[of watch_pattern 0 content] d[of shorts_pattern 0 content] d[of channel_pattern 0 content]
  show ?thesis by (intro conjI)
qed

theorem url_extractors_unique_in_match_order_witness:
  "distinct (extract_youtube_videos mixed_bookmarks)
   \<and> extract_youtube_videos mixed_bookmarks =
       first_occurrences (map clean_url
         (findall_pat watch_pattern mixed_bookmarks @ findall_pat shorts_pattern mixed_bookmarks))
   \<and> in_input_order (channel_occurrences mixed_bookmarks) (extract_channel_urls mixed_bookmarks)"
proof -
  note T = url_extractors_unique_in_match_order[of mixed_bookmarks]
  from T[THEN conjunct1] T[THEN conjunct2, THEN conjunct2, THEN conjunct1]
    T[THEN conjunct2, THEN conjunct2, THEN conjunct2, THEN conjunct2, THEN conjunct1]
  show ?thesis by (intro conjI)
qed

section \<open>Properties of the Fetcher\<close>






































end
